theory Spec2Isabelle
  imports Main "HOL-Library.Word" "HOL-Library.AList"
begin

section \<open>Handlers, handler tables and parameters\<close>

text \<open>
  A Go \<^verbatim>\<open>HandlerFunc\<close> is a function value that can only be compared with nil. A handler is
  identified by a number here; \<open>None\<close> is the nil handler.
\<close>

type_synonym HandlerFunc = "nat option"

type_synonym MiddlewareFunc = "HandlerFunc \<Rightarrow> HandlerFunc"

datatype error =
    ErrAlreadyHandles string string
  | ErrWildcardLength
  | ErrWildcardAmbiguous "string list" "string list"
  | ErrCatchAllName string string
  | ErrSlashAfterCatchAll string
  | ErrRouteMismatch string string
  | ErrEmptyPath
  | ErrMustStartWithSlash string
  | ErrURLParse string
  | ErrIndexOutOfRange
  | ErrNilDereference

text \<open>tree.go, \<^verbatim>\<open>type handlerMap struct\<close>. The Go map \<^verbatim>\<open>m\<close> is an association list; nil is \<open>None\<close>.\<close>

record handlerMap =
  h_get :: HandlerFunc
  h_post :: HandlerFunc
  h_put :: HandlerFunc
  h_delete :: HandlerFunc
  h_head :: HandlerFunc
  h_options :: HandlerFunc
  h_patch :: HandlerFunc
  implicitHead :: bool
  h_m :: "(string \<times> HandlerFunc) list option"

definition newHandlerMap :: handlerMap where
  "newHandlerMap = \<lparr>h_get = None, h_post = None, h_put = None, h_delete = None,
     h_head = None, h_options = None, h_patch = None, implicitHead = False, h_m = None\<rparr>"

definition MethodGet :: string where "MethodGet = ''GET''"
definition MethodPost :: string where "MethodPost = ''POST''"
definition MethodPut :: string where "MethodPut = ''PUT''"
definition MethodDelete :: string where "MethodDelete = ''DELETE''"
definition MethodHead :: string where "MethodHead = ''HEAD''"
definition MethodOptions :: string where "MethodOptions = ''OPTIONS''"
definition MethodPatch :: string where "MethodPatch = ''PATCH''"

text \<open>Reading a Go map at a missing key, or reading a nil map, gives the zero value nil.\<close>

definition mapIndex :: "(string \<times> HandlerFunc) list option \<Rightarrow> string \<Rightarrow> HandlerFunc" where
  "mapIndex mo name =
     (case mo of None \<Rightarrow> None
      | Some al \<Rightarrow> (case map_of al name of None \<Rightarrow> None | Some h \<Rightarrow> h))"

definition Get :: "handlerMap \<Rightarrow> string \<Rightarrow> HandlerFunc" where
  "Get h name =
     (if name = MethodGet then h_get h
      else if name = MethodPost then h_post h
      else if name = MethodPut then h_put h
      else if name = MethodDelete then h_delete h
      else if name = MethodHead then h_head h
      else if name = MethodOptions then h_options h
      else if name = MethodPatch then h_patch h
      else mapIndex (h_m h) name)"

definition Set :: "handlerMap \<Rightarrow> string \<Rightarrow> HandlerFunc \<Rightarrow> handlerMap" where
  "Set h name handler =
     (let h1 =
        (if name = MethodGet then h\<lparr>h_get := handler\<rparr>
         else if name = MethodPost then h\<lparr>h_post := handler\<rparr>
         else if name = MethodPut then h\<lparr>h_put := handler\<rparr>
         else if name = MethodDelete then h\<lparr>h_delete := handler\<rparr>
         else if name = MethodHead then h\<lparr>h_head := handler\<rparr>
         else if name = MethodOptions then h\<lparr>h_options := handler\<rparr>
         else if name = MethodPatch then h\<lparr>h_patch := handler\<rparr>
         else h);
        al = (case h_m h1 of None \<Rightarrow> [] | Some al \<Rightarrow> al)
      in h1\<lparr>h_m := Some (AList.update name handler al)\<rparr>)"

text \<open>The request parameters: \<^verbatim>\<open>type Param struct\<close> and \<^verbatim>\<open>type Params []Param\<close>.\<close>

record Param =
  Name :: string
  Value :: string

type_synonym Params = "Param list"

fun Params_Get :: "Params \<Rightarrow> string \<Rightarrow> string \<times> bool" where
  "Params_Get [] name = ('''', False)"
| "Params_Get (param # ps) name =
     (if Name param = name then (Value param, True) else Params_Get ps name)"

definition Text :: "Params \<Rightarrow> string \<Rightarrow> string" where
  "Text ps name = fst (Params_Get ps name)"

subsection \<open>strconv.ParseUint(s, 10, 64)\<close>

text \<open>
  The Go standard library's parser, at base 10 and bit size 64, on the 64-bit accumulator
  it uses: a syntax error on the empty string and at the first byte that is not a decimal
  digit, a range error as soon as the accumulator would pass \<open>2^64 - 1\<close>.
\<close>

datatype NumError = ErrSyntax | ErrRange

text \<open>A Go string is a sequence of bytes; \<open>byte\<close> reads a character as its value.\<close>

definition byte :: "char \<Rightarrow> nat" where
  "byte c = of_char c"

definition between :: "char \<Rightarrow> char \<Rightarrow> char \<Rightarrow> bool" where
  "between lo hi c = (byte lo \<le> byte c \<and> byte c \<le> byte hi)"

definition isDigit :: "char \<Rightarrow> bool" where
  "isDigit c = between CHR ''0'' CHR ''9'' c"

definition digitVal :: "char \<Rightarrow> nat" where
  "digitVal c = byte c - byte CHR ''0''"

definition cutoff :: "64 word" where
  "cutoff = 1844674407370955162"

fun parseUintLoop :: "string \<Rightarrow> 64 word \<Rightarrow> NumError + 64 word" where
  "parseUintLoop [] n = Inr n"
| "parseUintLoop (c # cs) n =
     (if \<not> isDigit c then Inl ErrSyntax
      else if n \<ge> cutoff then Inl ErrRange
      else
        (let n10 = n * 10; n1 = n10 + word_of_nat (digitVal c)
         in if n1 < n10 then Inl ErrRange else parseUintLoop cs n1))"

definition ParseUint :: "string \<Rightarrow> NumError + 64 word" where
  "ParseUint s = (if s = [] then Inl ErrSyntax else parseUintLoop s 0)"

definition Uint32 :: "Params \<Rightarrow> string \<Rightarrow> NumError + 32 word" where
  "Uint32 ps name =
     (case ParseUint (Text ps name) of
        Inl err \<Rightarrow> Inl err
      | Inr n \<Rightarrow> Inr (ucast n))"

definition Uint64 :: "Params \<Rightarrow> string \<Rightarrow> NumError + 64 word" where
  "Uint64 ps name = ParseUint (Text ps name)"

text \<open>
  The words of the claim about \<^verbatim>\<open>Uint32\<close>: a decimal string is a non-empty string of digits,
  and \<open>decimalValue\<close> is the number it writes.
\<close>

definition isDecimal :: "string \<Rightarrow> bool" where
  "isDecimal s = (s \<noteq> [] \<and> list_all isDigit s)"

definition decimalValue :: "string \<Rightarrow> nat" where
  "decimalValue s = foldl (\<lambda>a c. 10 * a + digitVal c) 0 s"

subsection \<open>url.PathUnescape\<close>

text \<open>
  The Go standard library's percent-decoder in path-segment mode: the first pass rejects a
  \<^verbatim>\<open>%\<close> that is not followed by two hexadecimal digits, the second pass replaces every
  \<^verbatim>\<open>%XY\<close> by the byte it writes and leaves \<^verbatim>\<open>+\<close> as it is.
\<close>

definition ishex :: "char \<Rightarrow> bool" where
  "ishex c = (between CHR ''0'' CHR ''9'' c \<or> between CHR ''a'' CHR ''f'' c
     \<or> between CHR ''A'' CHR ''F'' c)"

definition unhex :: "char \<Rightarrow> nat" where
  "unhex c =
     (if between CHR ''0'' CHR ''9'' c then byte c - byte CHR ''0''
      else if between CHR ''a'' CHR ''f'' c then byte c - byte CHR ''a'' + 10
      else if between CHR ''A'' CHR ''F'' c then byte c - byte CHR ''A'' + 10
      else 0)"

fun escapesWellFormed :: "string \<Rightarrow> bool" where
  "escapesWellFormed [] = True"
| "escapesWellFormed (c # cs) =
     (if c = CHR ''%'' then
        (case cs of
           a # b # rest \<Rightarrow> ishex a \<and> ishex b \<and> escapesWellFormed rest
         | _ \<Rightarrow> False)
      else escapesWellFormed cs)"

fun unescapeBytes :: "string \<Rightarrow> string" where
  "unescapeBytes [] = []"
| "unescapeBytes (c # cs) =
     (if c = CHR ''%'' then
        (case cs of
           a # b # rest \<Rightarrow> char_of (16 * unhex a + unhex b) # unescapeBytes rest
         | _ \<Rightarrow> c # unescapeBytes cs)
      else c # unescapeBytes cs)"

definition PathUnescape :: "string \<Rightarrow> string option" where
  "PathUnescape s = (if escapesWellFormed s then Some (unescapeBytes s) else None)"

section \<open>The route tree\<close>

text \<open>
  tree.go, \<^verbatim>\<open>type node struct\<close>. Every node is owned by its parent and no node is shared,
  so a pointer to a child is the child itself; a nil pointer is \<open>None\<close> and a nil slice of
  names is \<open>None\<close>. The two parallel slices of static children stay two lists.
\<close>

datatype node = Node
  (route: string)
  (path: string)
  (priority: int)
  (staticIndices: "char list")
  (staticChild: "node list")
  (wildcardChild: "node option")
  (catchAllChild: "node option")
  (addSlash: bool)
  (isCatchAll: bool)
  (handlerMap: "handlerMap option")
  (leafWildcardNames: "string list option")

text \<open>The zero node \<^verbatim>\<open>&node{path: p}\<close>.\<close>

definition newNode :: "string \<Rightarrow> node" where
  "newNode p = Node [] p 0 [] [] None None False False None None"

text \<open>Assignments to the fields of a node.\<close>

fun set_route :: "string \<Rightarrow> node \<Rightarrow> node" where
  "set_route v (Node r p pr si sc wc ca asl ica hm wn) = Node v p pr si sc wc ca asl ica hm wn"

fun set_path :: "string \<Rightarrow> node \<Rightarrow> node" where
  "set_path v (Node r p pr si sc wc ca asl ica hm wn) = Node r v pr si sc wc ca asl ica hm wn"

fun set_priority :: "int \<Rightarrow> node \<Rightarrow> node" where
  "set_priority v (Node r p pr si sc wc ca asl ica hm wn) = Node r p v si sc wc ca asl ica hm wn"

fun set_staticIndices :: "char list \<Rightarrow> node \<Rightarrow> node" where
  "set_staticIndices v (Node r p pr si sc wc ca asl ica hm wn) =
     Node r p pr v sc wc ca asl ica hm wn"

fun set_staticChild :: "node list \<Rightarrow> node \<Rightarrow> node" where
  "set_staticChild v (Node r p pr si sc wc ca asl ica hm wn) =
     Node r p pr si v wc ca asl ica hm wn"

fun set_wildcardChild :: "node option \<Rightarrow> node \<Rightarrow> node" where
  "set_wildcardChild v (Node r p pr si sc wc ca asl ica hm wn) =
     Node r p pr si sc v ca asl ica hm wn"

fun set_catchAllChild :: "node option \<Rightarrow> node \<Rightarrow> node" where
  "set_catchAllChild v (Node r p pr si sc wc ca asl ica hm wn) =
     Node r p pr si sc wc v asl ica hm wn"

fun set_addSlash :: "bool \<Rightarrow> node \<Rightarrow> node" where
  "set_addSlash v (Node r p pr si sc wc ca asl ica hm wn) = Node r p pr si sc wc ca v ica hm wn"

fun set_handlerMap :: "handlerMap option \<Rightarrow> node \<Rightarrow> node" where
  "set_handlerMap v (Node r p pr si sc wc ca asl ica hm wn) =
     Node r p pr si sc wc ca asl ica v wn"

fun set_leafWildcardNames :: "string list option \<Rightarrow> node \<Rightarrow> node" where
  "set_leafWildcardNames v (Node r p pr si sc wc ca asl ica hm wn) =
     Node r p pr si sc wc ca asl ica hm v"

text \<open>
  \<^verbatim>\<open>n.leafWildcardNames[len(n.leafWildcardNames)-1-i]\<close>: the index is negative, and the
  read panics, when \<open>i\<close> is not below the number of names.
\<close>

definition paramName :: "node \<Rightarrow> nat \<Rightarrow> error + string" where
  "paramName n i =
     (let names = (case leafWildcardNames n of None \<Rightarrow> [] | Some ns \<Rightarrow> ns)
      in if i < length names then Inr (names ! (length names - 1 - i))
         else Inl ErrIndexOutOfRange)"

definition setHandler :: "node \<Rightarrow> string \<Rightarrow> HandlerFunc \<Rightarrow> bool \<Rightarrow> error + node" where
  "setHandler n verb handler implicit =
     (let hm = (case handlerMap n of None \<Rightarrow> newHandlerMap | Some hm \<Rightarrow> hm)
      in if Get hm verb \<noteq> None \<and> (verb \<noteq> MethodHead \<or> \<not> implicitHead hm)
         then Inl (ErrAlreadyHandles (path n) verb)
         else
           (let hm1 = Set hm verb handler;
                hm2 = (if verb = MethodHead then hm1\<lparr>implicitHead := implicit\<rparr> else hm1)
            in Inr (set_handlerMap (Some hm2) n)))"

subsection \<open>Strings\<close>

text \<open>\<^verbatim>\<open>strings.IndexByte\<close>, with \<open>None\<close> for -1, and \<^verbatim>\<open>strings.HasPrefix\<close>.\<close>

fun IndexByte :: "string \<Rightarrow> char \<Rightarrow> nat option" where
  "IndexByte [] c = None"
| "IndexByte (x # xs) c =
     (if x = c then Some 0 else map_option Suc (IndexByte xs c))"

definition HasPrefix :: "string \<Rightarrow> string \<Rightarrow> bool" where
  "HasPrefix s pre = (length pre \<le> length s \<and> take (length pre) s = pre)"

text \<open>
  The loops \<^verbatim>\<open>for i, index := range n.staticIndices { if c == index { ... return/break } }\<close>
  act on the first position that holds the byte.
\<close>

fun firstIndex :: "char list \<Rightarrow> char \<Rightarrow> nat option" where
  "firstIndex [] c = None"
| "firstIndex (x # xs) c =
     (if c = x then Some 0 else map_option Suc (firstIndex xs c))"

subsection \<open>The matcher\<close>

lemma size_staticChild: "i < length (staticChild n) \<Longrightarrow> size (staticChild n ! i) < size n"
proof (cases n)
  case (Node r p pr si sc wc ca asl ica hm wn)
  assume "i < length (staticChild n)"
  then have "sc ! i \<in> set sc" using Node by simp
  then have "size (sc ! i) \<le> size_list size sc" by (simp add: size_list_estimation')
  then show ?thesis using Node by simp
qed

lemma size_wildcardChild: "wildcardChild n = Some w \<Longrightarrow> size w < size n"
  by (cases n) auto

lemma size_catchAllChild: "catchAllChild n = Some w \<Longrightarrow> size w < size n"
  by (cases n) auto

datatype 'a flow = Return 'a | Continue 'a

type_synonym searchResult = "node option \<times> HandlerFunc \<times> Param list"

definition unescapeOrRaw :: "string \<Rightarrow> string" where
  "unescapeOrRaw s = (case PathUnescape s of None \<Rightarrow> s | Some u \<Rightarrow> u)"

definition wildcardResult ::
  "node option \<Rightarrow> HandlerFunc \<Rightarrow> Param list \<Rightarrow> string \<Rightarrow> node option \<Rightarrow> HandlerFunc \<Rightarrow> Param list
     \<Rightarrow> error + searchResult flow" where
  "wildcardResult found handler params thisToken wcNode wcHandler wcParams =
     (if wcHandler \<noteq> None \<or> (found = None \<and> wcNode \<noteq> None) then
        (let unescaped = unescapeOrRaw thisToken
         in case wcNode of
              None \<Rightarrow> Inl ErrNilDereference
            | Some wn \<Rightarrow>
                (case paramName wn (length wcParams) of
                   Inl e \<Rightarrow> Inl e
                 | Inr name \<Rightarrow>
                     (let wcParams1 = wcParams @ [\<lparr>Name = name, Value = unescaped\<rparr>]
                      in if wcHandler \<noteq> None
                         then Inr (Return (wcNode, wcHandler, wcParams1))
                         else Inr (Continue (wcNode, wcHandler, wcParams1)))))
      else Inr (Continue (found, handler, params)))"

definition catchAllSearch ::
  "node \<Rightarrow> string \<Rightarrow> string \<Rightarrow> node option \<Rightarrow> HandlerFunc \<Rightarrow> Param list \<Rightarrow> error + searchResult" where
  "catchAllSearch n method pth found handler params =
     (case catchAllChild n of
        None \<Rightarrow> Inr (found, handler, params)
      | Some c \<Rightarrow>
          (case handlerMap c of
             None \<Rightarrow> Inl ErrNilDereference
           | Some hm \<Rightarrow>
               (let handler1 = Get hm method
                in if handler1 \<noteq> None \<or> found = None then
                     (let unescaped = unescapeOrRaw pth
                      in case paramName c 0 of
                           Inl e \<Rightarrow> Inl e
                         | Inr name \<Rightarrow>
                             Inr (Some c, handler1, [\<lparr>Name = name, Value = unescaped\<rparr>]))
                   else Inr (found, handler1, params))))"

function search :: "node \<Rightarrow> string \<Rightarrow> string \<Rightarrow> error + searchResult" where
  "search n method pth =
     (if pth = [] then
        (case handlerMap n of
           None \<Rightarrow> Inr (None, None, [])
         | Some hm \<Rightarrow> Inr (Some n, Get hm method, []))
      else
        (case
           (case firstIndex (staticIndices n) (hd pth) of
              None \<Rightarrow> Inr (None, None, [])
            | Some i \<Rightarrow>
                if i < length (staticChild n) then
                  (if HasPrefix pth (path (staticChild n ! i))
                   then search (staticChild n ! i) method
                          (drop (length (path (staticChild n ! i))) pth)
                   else Inr (None, None, []))
                else Inl ErrIndexOutOfRange)
         of
           Inl e \<Rightarrow> Inl e
         | Inr (found, handler, params) \<Rightarrow>
             if handler \<noteq> None then Inr (found, handler, params)
             else
               (case
                  (case wildcardChild n of
                     None \<Rightarrow> Inr (Continue (found, handler, params))
                   | Some w \<Rightarrow>
                       (let nextSlash =
                              (case IndexByte pth CHR ''/'' of None \<Rightarrow> length pth | Some k \<Rightarrow> k);
                            thisToken = take nextSlash pth;
                            nextToken = drop nextSlash pth
                        in if thisToken \<noteq> [] then
                             (case search w method nextToken of
                                Inl e \<Rightarrow> Inl e
                              | Inr (wcNode, wcHandler, wcParams) \<Rightarrow>
                                  wildcardResult found handler params thisToken
                                    wcNode wcHandler wcParams)
                           else Inr (Continue (found, handler, params))))
                of
                  Inl e \<Rightarrow> Inl e
                | Inr (Return r) \<Rightarrow> Inr r
                | Inr (Continue (found1, handler1, params1)) \<Rightarrow>
                    catchAllSearch n method pth found1 handler1 params1)))"
  by pat_completeness auto
termination
  by (relation "measure (\<lambda>(n, method, pth). size n)")
     (auto simp: size_staticChild size_wildcardChild)

subsection \<open>UTF-8\<close>

definition cont :: "nat \<Rightarrow> nat \<Rightarrow> char \<Rightarrow> bool" where
  "cont lo hi c = (lo \<le> byte c \<and> byte c \<le> hi)"

definition runeExtra :: "string \<Rightarrow> nat" where
  "runeExtra s =
     (case s of
        [] \<Rightarrow> 0
      | s0 # r \<Rightarrow>
          (let b = byte s0
           in if b < 0xC2 \<or> 0xF4 < b then 0
              else if b \<le> 0xDF then
                (case r of s1 # _ \<Rightarrow> if cont 0x80 0xBF s1 then 1 else 0 | _ \<Rightarrow> 0)
              else if b \<le> 0xEF then
                (case r of
                   s1 # s2 # _ \<Rightarrow>
                     if cont (if b = 0xE0 then 0xA0 else 0x80) (if b = 0xED then 0x9F else 0xBF) s1
                        \<and> cont 0x80 0xBF s2
                     then 2 else 0
                 | _ \<Rightarrow> 0)
              else
                (case r of
                   s1 # s2 # s3 # _ \<Rightarrow>
                     if cont (if b = 0xF0 then 0x90 else 0x80) (if b = 0xF4 then 0x8F else 0xBF) s1
                        \<and> cont 0x80 0xBF s2 \<and> cont 0x80 0xBF s3
                     then 3 else 0
                 | _ \<Rightarrow> 0)))"

function rangeLoop :: "string \<Rightarrow> string \<Rightarrow> nat \<Rightarrow> nat \<Rightarrow> error + nat" where
  "rangeLoop cp pth k i =
     (if k \<ge> length cp then Inr i
      else if k = length pth then Inr k
      else if k > length pth then Inl ErrIndexOutOfRange
      else if pth ! k \<noteq> cp ! k then Inr k
      else rangeLoop cp pth (k + Suc (runeExtra (drop k cp))) k)"
  by pat_completeness auto
termination
  by (relation "measure (\<lambda>(cp, pth, k, i). length cp - k)") auto

declare rangeLoop.simps [simp del]

datatype step = Static nat | Wildcard | CatchAll

definition splitCommonPrefix :: "node \<Rightarrow> nat \<Rightarrow> string \<Rightarrow> error + node \<times> nat" where
  "splitCommonPrefix n existingNodeIndex pth =
     (if existingNodeIndex \<ge> length (staticChild n) then Inl ErrIndexOutOfRange
      else
        (let childNode = staticChild n ! existingNodeIndex
         in if HasPrefix pth (path childNode) then Inr (n, length (path childNode))
            else
              (case rangeLoop (path childNode) pth 0 0 of
                 Inl e \<Rightarrow> Inl e
               | Inr i \<Rightarrow>
                   (let commonPrefix = take i pth;
                        childNode1 = set_path (drop i (path childNode)) childNode
                    in case path childNode1 of
                         [] \<Rightarrow> Inl ErrIndexOutOfRange
                       | b # _ \<Rightarrow>
                           (let newN = Node [] commonPrefix (priority childNode) [b] [childNode1]
                                         None None False False None None
                            in Inr (set_staticChild ((staticChild n)[existingNodeIndex := newN]) n,
                                    i))))))"

fun sortStaticChild :: "node \<Rightarrow> nat \<Rightarrow> node \<times> nat" where
  "sortStaticChild n 0 = (n, 0)"
| "sortStaticChild n (Suc k) =
     (if priority (staticChild n ! Suc k) > priority (staticChild n ! k) then
        sortStaticChild
          (set_staticIndices
             ((staticIndices n)[Suc k := staticIndices n ! k, k := staticIndices n ! Suc k])
             (set_staticChild
                ((staticChild n)[Suc k := staticChild n ! k, k := staticChild n ! Suc k]) n))
          k
      else (n, Suc k))"

definition appendName :: "string list option \<Rightarrow> string \<Rightarrow> string list option" where
  "appendName wildcards tok =
     (case wildcards of None \<Rightarrow> Some [tok] | Some ws \<Rightarrow> Some (ws @ [tok]))"

definition addPathLeaf :: "node \<Rightarrow> string list option \<Rightarrow> error + node \<times> step list" where
  "addPathLeaf n wildcards =
     (case wildcards of
        None \<Rightarrow> Inr (n, [])
      | Some ws \<Rightarrow>
          (case leafWildcardNames n of
             Some ns \<Rightarrow>
               if length ns \<noteq> length ws then Inl ErrWildcardLength
               else if ns \<noteq> ws then Inl (ErrWildcardAmbiguous ns ws)
               else Inr (n, [])
           | None \<Rightarrow> Inr (set_leafWildcardNames wildcards n, [])))"

definition addPathCatchAll ::
  "node \<Rightarrow> string \<Rightarrow> string \<Rightarrow> nat option \<Rightarrow> string list option \<Rightarrow> error + node \<times> step list" where
  "addPathCatchAll n pth thisToken nextSlash wildcards =
     (let ca = (case catchAllChild n of
                  None \<Rightarrow> Node [] thisToken 0 [] [] None None False True None None
                | Some ca \<Rightarrow> ca)
      in if tl pth \<noteq> path ca then Inl (ErrCatchAllName pth (path ca))
         else if nextSlash \<noteq> None then Inl (ErrSlashAfterCatchAll pth)
         else
           Inr (set_catchAllChild
                  (Some (set_leafWildcardNames (appendName wildcards thisToken) ca)) n,
                [CatchAll]))"

definition backslash :: char where
  "backslash = CHR 0x5C"

text \<open>
  One activation of \<^verbatim>\<open>addPath\<close>, up to the point where it returns. It ends in one of two
  ways: with a result of its own (\<open>Done\<close>: the leaf, the catch-all child, or a panic), or
  with a call of \<^verbatim>\<open>addPath\<close> on a child whose result it returns (\<open>Descend\<close>: the node as
  this activation leaves it, the place of the child in it, the child, and the arguments of
  the call).
\<close>

datatype addStep =
    Done "error + node \<times> step list"
  | Descend node step node string "string list option" bool

definition addPathStep :: "node \<Rightarrow> string \<Rightarrow> string list option \<Rightarrow> bool \<Rightarrow> addStep" where
  "addPathStep n pth wildcards inStaticToken =
     (if pth = [] then Done (addPathLeaf n wildcards)
      else
        (let c = hd pth;
             nextSlash = IndexByte pth CHR ''/'';
             thisToken = (if c = CHR ''/'' then ''/''
                          else case nextSlash of None \<Rightarrow> pth | Some k \<Rightarrow> take k pth);
             tokenEnd = (if c = CHR ''/'' then 1
                         else case nextSlash of None \<Rightarrow> length pth | Some k \<Rightarrow> k);
             remainingPath = drop tokenEnd pth
         in if c = CHR ''*'' \<and> \<not> inStaticToken then
              Done (addPathCatchAll n pth (tl thisToken) nextSlash wildcards)
            else if c = CHR '':'' \<and> \<not> inStaticToken then
              (let wildcards1 = appendName wildcards (tl thisToken);
                   w = (case wildcardChild n of None \<Rightarrow> newNode ''wildcard'' | Some w \<Rightarrow> w)
               in Descend (set_wildcardChild (Some w) n) Wildcard w remainingPath wildcards1 False)
            else
              (let unescaped =
                     (length thisToken \<ge> 2 \<and> \<not> inStaticToken \<and> thisToken ! 0 = backslash
                      \<and> (thisToken ! 1 = CHR ''*'' \<or> thisToken ! 1 = CHR '':''
                           \<or> thisToken ! 1 = backslash));
                   c1 = (if unescaped then thisToken ! 1 else c);
                   thisToken1 = (if unescaped then tl thisToken else thisToken);
                   inStaticToken1 = (c1 \<noteq> CHR ''/'')
               in case firstIndex (staticIndices n) c1 of
                    Some i \<Rightarrow>
                      (case splitCommonPrefix n i thisToken1 of
                         Inl e \<Rightarrow> Done (Inl e)
                       | Inr (n1, prefixSplit) \<Rightarrow>
                           (let child = staticChild n1 ! i;
                                n2 = set_staticChild
                                       ((staticChild n1)[i := set_priority (priority child + 1) child])
                                       n1;
                                (n3, j) = sortStaticChild n2 i;
                                prefixSplit1 = (if unescaped then prefixSplit + 1 else prefixSplit)
                            in if prefixSplit1 > length pth then Done (Inl ErrIndexOutOfRange)
                               else Descend n3 (Static j) (staticChild n3 ! j)
                                      (drop prefixSplit1 pth) wildcards inStaticToken1))
                  | None \<Rightarrow>
                      (let child = newNode thisToken1;
                           n1 = (if staticIndices n = []
                                 then set_staticChild [child] (set_staticIndices [c1] n)
                                 else set_staticChild (staticChild n @ [child])
                                        (set_staticIndices (staticIndices n @ [c1]) n))
                       in Descend n1 (Static (length (staticChild n1) - 1)) child
                            remainingPath wildcards inStaticToken1))))"

text \<open>The node with the child at the given place replaced.\<close>

fun plug :: "node \<Rightarrow> step \<Rightarrow> node \<Rightarrow> node" where
  "plug n (Static j) ch = set_staticChild ((staticChild n)[j := ch]) n"
| "plug n Wildcard ch = set_wildcardChild (Some ch) n"
| "plug n CatchAll ch = set_catchAllChild (Some ch) n"

text \<open>
  tree.go, \<^verbatim>\<open>node.addPath\<close>. The recursion ends when the pattern is used up, but an
  activation can call itself on the same pattern, so the function is partial: \<open>None\<close> when
  the call does not return. A call that returns gives \<open>Inl\<close> for a panic, or the node as
  the call leaves it together with the place of the leaf in it.
\<close>

partial_function (option) addPath ::
  "node \<Rightarrow> string \<Rightarrow> string list option \<Rightarrow> bool \<Rightarrow> (error + node \<times> step list) option" where
  "addPath n pth wildcards inStaticToken =
     (case addPathStep n pth wildcards inStaticToken of
        Done r \<Rightarrow> Some r
      | Descend n1 st child rest wildcards1 inStaticToken1 \<Rightarrow>
          Option.bind (addPath child rest wildcards1 inStaticToken1)
            (\<lambda>r. Some (case r of
                         Inl e \<Rightarrow> Inl e
                       | Inr (child1, leaf) \<Rightarrow> Inr (plug n1 st child1, st # leaf))))"

declare addPath.simps [code]

section \<open>Registration\<close>

text \<open>
  \<^verbatim>\<open>addPath\<close> returns a pointer to the leaf, which \<^verbatim>\<open>Handle\<close> then writes through. The
  pointer is the list of child selections that lead from the node to the leaf.
\<close>

fun nodeAt :: "node \<Rightarrow> step list \<Rightarrow> node option" where
  "nodeAt n [] = Some n"
| "nodeAt n (Static i # l) =
     (if i < length (staticChild n) then nodeAt (staticChild n ! i) l else None)"
| "nodeAt n (Wildcard # l) =
     (case wildcardChild n of None \<Rightarrow> None | Some w \<Rightarrow> nodeAt w l)"
| "nodeAt n (CatchAll # l) =
     (case catchAllChild n of None \<Rightarrow> None | Some c \<Rightarrow> nodeAt c l)"

fun modifyAt :: "(node \<Rightarrow> error + node) \<Rightarrow> step list \<Rightarrow> node \<Rightarrow> error + node" where
  "modifyAt f [] n = f n"
| "modifyAt f (Static i # l) n =
     (if i < length (staticChild n) then
        (case modifyAt f l (staticChild n ! i) of
           Inl e \<Rightarrow> Inl e
         | Inr ch \<Rightarrow> Inr (set_staticChild ((staticChild n)[i := ch]) n))
      else Inl ErrNilDereference)"
| "modifyAt f (Wildcard # l) n =
     (case wildcardChild n of
        None \<Rightarrow> Inl ErrNilDereference
      | Some w \<Rightarrow>
          (case modifyAt f l w of
             Inl e \<Rightarrow> Inl e
           | Inr w1 \<Rightarrow> Inr (set_wildcardChild (Some w1) n)))"
| "modifyAt f (CatchAll # l) n =
     (case catchAllChild n of
        None \<Rightarrow> Inl ErrNilDereference
      | Some c \<Rightarrow>
          (case modifyAt f l c of
             Inl e \<Rightarrow> Inl e
           | Inr c1 \<Rightarrow> Inr (set_catchAllChild (Some c1) n)))"

text \<open>group.go, \<^verbatim>\<open>handlerWithMiddlewares\<close>: the stack is applied from its last element down.\<close>

definition handlerWithMiddlewares :: "HandlerFunc \<Rightarrow> MiddlewareFunc list \<Rightarrow> HandlerFunc" where
  "handlerWithMiddlewares handler stk = foldr (\<lambda>mw h. mw h) stk handler"

text \<open>
  \<^verbatim>\<open>strings.Replace(s, old, new, -1)\<close> for a non-empty \<open>old\<close>: every occurrence, left to
  right, without overlap.
\<close>

function replaceAll :: "string \<Rightarrow> string \<Rightarrow> string \<Rightarrow> string" where
  "replaceAll s old new =
     (if s = [] \<or> old = [] then s
      else if HasPrefix s old then new @ replaceAll (drop (length old) s) old new
      else hd s # replaceAll (tl s) old new)"
  by pat_completeness auto
termination
  by (relation "measure (\<lambda>(s, old, new). length s)") (auto simp: HasPrefix_def)

declare replaceAll.simps [simp del]

definition unescapeSpecial :: "string \<Rightarrow> string" where
  "unescapeSpecial s0 =
     (let s1 = replaceAll s0 ''/%2A'' ''/*'';
          s2 = replaceAll s1 ''/%5C:'' [CHR ''/'', backslash, CHR '':''];
          s3 = replaceAll s2 ''/%5C%5C:'' ''/%5C:'';
          s4 = replaceAll s3 ''/%5C%2A'' ''/%2A'';
          s5 = replaceAll s4 ''/%5C%5C%2A'' ''/%5C%2A''
      in s5)"

text \<open>
  Modelled from the spec: the type \<^verbatim>\<open>TreeMux\<close> is declared outside the files at hand. Of its
  fields, the root of the tree and the three switches that \<^verbatim>\<open>Group.Handle\<close> reads are kept.
\<close>

record TreeMux =
  root :: node
  HeadCanUseGet :: bool
  RedirectTrailingSlash :: bool
  EscapeAddedRoutes :: bool

text \<open>group.go, \<^verbatim>\<open>type Group struct\<close>; the router it points to is passed beside it.\<close>

record Group =
  group_path :: string
  stack :: "MiddlewareFunc list"

text \<open>What the closure \<^verbatim>\<open>addOne\<close> does to the leaf that \<^verbatim>\<open>addPath\<close> returned.\<close>

definition addOneLeaf ::
  "bool \<Rightarrow> string \<Rightarrow> HandlerFunc \<Rightarrow> bool \<Rightarrow> string \<Rightarrow> node \<Rightarrow> error + node" where
  "addOneLeaf headCanUseGet method handler slash fullPath nd =
     (if route nd \<noteq> [] \<and> route nd \<noteq> fullPath then Inl (ErrRouteMismatch (route nd) fullPath)
      else
        (let nd1 = (if route nd = [] then set_route fullPath nd else nd);
             nd2 = (if slash then set_addSlash True nd1 else nd1)
         in case setHandler nd2 method handler False of
              Inl e \<Rightarrow> Inl e
            | Inr nd3 \<Rightarrow>
                (case handlerMap nd3 of
                   None \<Rightarrow> Inl ErrNilDereference
                 | Some hm \<Rightarrow>
                     if headCanUseGet \<and> method = MethodGet \<and> Get hm MethodHead = None
                     then setHandler nd3 MethodHead handler True
                     else Inr nd3)))"

definition addOne ::
  "TreeMux \<Rightarrow> string \<Rightarrow> HandlerFunc \<Rightarrow> bool \<Rightarrow> string \<Rightarrow> (error + TreeMux) option" where
  "addOne mux method handler slash fullPath =
     (if fullPath = [] then Some (Inl ErrIndexOutOfRange)
      else
        Option.bind (addPath (root mux) (tl fullPath) None False)
          (\<lambda>r. Some (case r of
                       Inl e \<Rightarrow> Inl e
                     | Inr (root1, leaf) \<Rightarrow>
                         (case modifyAt
                                 (addOneLeaf (HeadCanUseGet mux) method handler slash fullPath)
                                 leaf root1 of
                            Inl e \<Rightarrow> Inl e
                          | Inr root2 \<Rightarrow> Inr (mux\<lparr>root := root2\<rparr>)))))"

text \<open>
  group.go, \<^verbatim>\<open>Group.Handle\<close>. \<^verbatim>\<open>url.ParseRequestURI\<close> followed by \<^verbatim>\<open>u.String()\<close> belongs to the
  Go standard library and is the parameter \<open>requestURI\<close>: \<open>None\<close> when parsing fails. The
  result is \<open>None\<close> when the call does not return, \<open>Some (Inl e)\<close> when it panics.
\<close>

definition Handle ::
  "(string \<Rightarrow> string option) \<Rightarrow> TreeMux \<Rightarrow> Group \<Rightarrow> string \<Rightarrow> string \<Rightarrow> HandlerFunc
     \<Rightarrow> (error + TreeMux) option" where
  "Handle requestURI mux g method pth handler0 =
     (let handler = (if length (stack g) > 0 then handlerWithMiddlewares handler0 (stack g)
                     else handler0)
      in if length pth > 0 \<and> hd pth \<noteq> CHR ''/'' then Some (Inl (ErrMustStartWithSlash pth))
         else
           (let pth1 = group_path g @ pth
            in if length pth1 = 0 then Some (Inl ErrEmptyPath)
               else
                 (let slash = (length pth1 > 1 \<and> last pth1 = CHR ''/''
                                 \<and> RedirectTrailingSlash mux);
                      pth2 = (if slash then butlast pth1 else pth1)
                  in if EscapeAddedRoutes mux then
                       (case requestURI pth2 of
                          None \<Rightarrow> Some (Inl (ErrURLParse pth2))
                        | Some us \<Rightarrow>
                            (let escapedPath = unescapeSpecial us
                             in if escapedPath \<noteq> pth2 then
                                  Option.bind (addOne mux method handler slash escapedPath)
                                    (\<lambda>r. case r of
                                           Inl e \<Rightarrow> Some (Inl e)
                                         | Inr mux1 \<Rightarrow> addOne mux1 method handler slash pth2)
                                else addOne mux method handler slash pth2))
                     else addOne mux method handler slash pth2)))"

text \<open>The router before any registration: an empty root.\<close>

definition emptyMux :: "bool \<Rightarrow> bool \<Rightarrow> bool \<Rightarrow> TreeMux" where
  "emptyMux headCanUseGet redirectTrailingSlash escapeAddedRoutes =
     \<lparr>root = newNode [], HeadCanUseGet = headCanUseGet,
      RedirectTrailingSlash = redirectTrailingSlash, EscapeAddedRoutes = escapeAddedRoutes\<rparr>"

text \<open>The routers that a sequence of registrations that all returned leads to.\<close>

inductive built :: "(string \<Rightarrow> string option) \<Rightarrow> TreeMux \<Rightarrow> TreeMux \<Rightarrow> bool"
  for requestURI :: "string \<Rightarrow> string option" and mux0 :: TreeMux where
    built_start: "built requestURI mux0 mux0"
  | built_Handle:
      "built requestURI mux0 mux \<Longrightarrow>
       Handle requestURI mux g method pth handler = Some (Inr mux1) \<Longrightarrow>
       built requestURI mux0 mux1"

section \<open>Matching after registration\<close>

text \<open>
  The two recursive steps of \<^verbatim>\<open>search\<close> by name: the static step (the loop over
  \<^verbatim>\<open>staticIndices\<close>) and the wildcard step (the block under \<^verbatim>\<open>if n.wildcardChild != nil\<close>).
\<close>

definition staticSearch :: "node \<Rightarrow> string \<Rightarrow> string \<Rightarrow> error + searchResult" where
  "staticSearch n method pth =
     (case firstIndex (staticIndices n) (hd pth) of
        None \<Rightarrow> Inr (None, None, [])
      | Some i \<Rightarrow>
          if i < length (staticChild n) then
            (if HasPrefix pth (path (staticChild n ! i))
             then search (staticChild n ! i) method (drop (length (path (staticChild n ! i))) pth)
             else Inr (None, None, []))
          else Inl ErrIndexOutOfRange)"

definition wildcardSearch ::
  "node \<Rightarrow> string \<Rightarrow> string \<Rightarrow> node option \<Rightarrow> HandlerFunc \<Rightarrow> Param list
     \<Rightarrow> error + searchResult flow" where
  "wildcardSearch n method pth found handler params =
     (case wildcardChild n of
        None \<Rightarrow> Inr (Continue (found, handler, params))
      | Some w \<Rightarrow>
          (let nextSlash = (case IndexByte pth CHR ''/'' of None \<Rightarrow> length pth | Some k \<Rightarrow> k);
               thisToken = take nextSlash pth;
               nextToken = drop nextSlash pth
           in if thisToken \<noteq> [] then
                (case search w method nextToken of
                   Inl e \<Rightarrow> Inl e
                 | Inr (wcNode, wcHandler, wcParams) \<Rightarrow>
                     wildcardResult found handler params thisToken wcNode wcHandler wcParams)
              else Inr (Continue (found, handler, params))))"

text \<open>
  A request is matched by the search from the root on the path without its leading slash,
  as \<^verbatim>\<open>addOne\<close> inserts \<^verbatim>\<open>fullPath[1:]\<close>. The caller sees whether a node was found, the
  handler and the parameters.
\<close>

definition match ::
  "TreeMux \<Rightarrow> string \<Rightarrow> string \<Rightarrow> error + bool \<times> HandlerFunc \<times> Param list" where
  "match mux method pth =
     (case search (root mux) method (tl pth) of
        Inl e \<Rightarrow> Inl e
      | Inr (nd, handler, params) \<Rightarrow> Inr (nd \<noteq> None, handler, params))"

text \<open>A list of registrations, made in order; the first one that does not return ends it.\<close>

fun HandleAll ::
  "(string \<Rightarrow> string option) \<Rightarrow> TreeMux \<Rightarrow> (Group \<times> string \<times> string \<times> HandlerFunc) list
     \<Rightarrow> (error + TreeMux) option" where
  "HandleAll requestURI mux [] = Some (Inr mux)"
| "HandleAll requestURI mux ((g, method, pth, handler) # rs) =
     (case Handle requestURI mux g method pth handler of
        None \<Rightarrow> None
      | Some (Inl e) \<Rightarrow> Some (Inl e)
      | Some (Inr mux1) \<Rightarrow> HandleAll requestURI mux1 rs)"

definition matchAfter ::
  "(string \<Rightarrow> string option) \<Rightarrow> TreeMux \<Rightarrow> (Group \<times> string \<times> string \<times> HandlerFunc) list
     \<Rightarrow> string \<Rightarrow> string \<Rightarrow> (error + bool \<times> HandlerFunc \<times> Param list) option" where
  "matchAfter requestURI mux regs method pth =
     (case HandleAll requestURI mux regs of
        None \<Rightarrow> None
      | Some (Inl e) \<Rightarrow> Some (Inl e)
      | Some (Inr mux1) \<Rightarrow> Some (match mux1 method pth))"

text \<open>The group of the router itself, with no prefix and no middleware.\<close>

definition rootGroup :: Group where
  "rootGroup = \<lparr>group_path = [], stack = []\<rparr>"

text \<open>A router that does not escape added routes never parses a URL.\<close>

definition noRequestURI :: "string \<Rightarrow> string option" where
  "noRequestURI s = None"

section \<open>Names for the statements\<close>

text \<open>The names recorded at a node, none when the slice is nil.\<close>

definition wildcardNames :: "node \<Rightarrow> string list" where
  "wildcardNames n = (case leafWildcardNames n of None \<Rightarrow> [] | Some ns \<Rightarrow> ns)"

text \<open>The root after a list of registrations that all returned.\<close>

definition rootAfter ::
  "(string \<Rightarrow> string option) \<Rightarrow> TreeMux \<Rightarrow> (Group \<times> string \<times> string \<times> HandlerFunc) list \<Rightarrow> node" where
  "rootAfter requestURI mux regs =
     (case HandleAll requestURI mux regs of
        Some (Inr mux1) \<Rightarrow> root mux1
      | _ \<Rightarrow> root mux)"

text \<open>
  The wildcard step cuts the path at its first \<^verbatim>\<open>/\<close>: the segment a wildcard captures and
  the rest that its child is searched on.
\<close>

definition firstSegment :: "string \<Rightarrow> string" where
  "firstSegment pth = takeWhile (\<lambda>x. x \<noteq> CHR ''/'') pth"

definition afterSegment :: "string \<Rightarrow> string" where
  "afterSegment pth = dropWhile (\<lambda>x. x \<noteq> CHR ''/'') pth"

text \<open>Routers of the examples: the root after the registrations of each.\<close>

definition yearMonthRoot :: node where
  "yearMonthRoot =
     rootAfter noRequestURI (emptyMux True True False)
       [(rootGroup, MethodGet, ''/:year/:month'', Some 1)]"

definition yearMonthLeaf :: node where
  "yearMonthLeaf = the (wildcardChild (hd (staticChild (the (wildcardChild yearMonthRoot)))))"

definition pageFaviconRoot :: node where
  "pageFaviconRoot =
     rootAfter noRequestURI (emptyMux True True False)
       [(rootGroup, MethodGet, ''/:page'', Some 1), (rootGroup, MethodGet, ''/favicon.ico'', Some 2)]"

definition segmentRoot :: node where
  "segmentRoot =
     rootAfter noRequestURI (emptyMux True True False)
       [(rootGroup, MethodGet, ''/:a'', Some 1), (rootGroup, MethodGet, ''/f/*p'', Some 2)]"

section \<open>The invariant of the static children\<close>

text \<open>
  The path of a static child is never empty and lies within one token of a pattern: it is
  the token \<^verbatim>\<open>/\<close> or has no slash.
\<close>

definition okPath :: "string \<Rightarrow> bool" where
  "okPath p = (p \<noteq> [] \<and> (p = ''/'' \<or> CHR ''/'' \<notin> set p))"

text \<open>
  At a node, \<^verbatim>\<open>staticIndices\<close> lists the leading bytes of the static children, in their order,
  and no byte comes twice. \<open>treeInv\<close> says so of every node of a tree.
\<close>

definition childrenOK :: "char list \<Rightarrow> node list \<Rightarrow> bool" where
  "childrenOK si sc =
     (map (\<lambda>c. hd (path c)) sc = si \<and> list_all (\<lambda>c. okPath (path c)) sc \<and> distinct si)"

fun treeInv :: "node \<Rightarrow> bool" where
  "treeInv (Node r p pr si sc wc ca asl ica hm wn) =
     (childrenOK si sc \<and> list_all treeInv sc
      \<and> (case wc of None \<Rightarrow> True | Some w \<Rightarrow> treeInv w)
      \<and> (case ca of None \<Rightarrow> True | Some c \<Rightarrow> treeInv c))"

section \<open>The steps of an insertion\<close>

text \<open>The token at the head of a pattern, as \<^verbatim>\<open>addPath\<close> computes \<^verbatim>\<open>thisToken\<close>.\<close>

definition thisTok :: "string \<Rightarrow> string" where
  "thisTok pth = (if hd pth = CHR ''/'' then ''/'' else firstSegment pth)"

text \<open>The pattern after that token (\<^verbatim>\<open>remainingPath\<close>).\<close>

definition remaining :: "string \<Rightarrow> string" where
  "remaining pth = (if hd pth = CHR ''/'' then tl pth else afterSegment pth)"

text \<open>The test \<^verbatim>\<open>unescaped\<close> of \<^verbatim>\<open>addPath\<close>: the token starts with a backslash before a marker.\<close>

definition escaped :: "string \<Rightarrow> bool \<Rightarrow> bool" where
  "escaped pth ist =
     (length (thisTok pth) \<ge> 2 \<and> \<not> ist \<and> thisTok pth ! 0 = backslash
      \<and> (thisTok pth ! 1 = CHR ''*'' \<or> thisTok pth ! 1 = CHR '':'' \<or> thisTok pth ! 1 = backslash))"

text \<open>The token as it is looked up among the static children.\<close>

definition litTok :: "string \<Rightarrow> bool \<Rightarrow> string" where
  "litTok pth ist = (if escaped pth ist then tl (thisTok pth) else thisTok pth)"

text \<open>The pattern starts a wildcard or a catch-all.\<close>

definition isMarker :: "string \<Rightarrow> bool \<Rightarrow> bool" where
  "isMarker pth ist = ((hd pth = CHR ''*'' \<or> hd pth = CHR '':'') \<and> \<not> ist)"

text \<open>The node with a new static child appended, as \<^verbatim>\<open>addPath\<close> does when no child has the byte.\<close>

definition addChild :: "node \<Rightarrow> char \<Rightarrow> node \<Rightarrow> node" where
  "addChild n c child =
     (if staticIndices n = []
      then set_staticChild [child] (set_staticIndices [c] n)
      else set_staticChild (staticChild n @ [child]) (set_staticIndices (staticIndices n @ [c]) n))"

text \<open>The node with the priority of its static child \<open>i\<close> raised by one.\<close>

definition bump :: "node \<Rightarrow> nat \<Rightarrow> node" where
  "bump n i =
     set_staticChild
       ((staticChild n)[i := set_priority (priority (staticChild n ! i) + 1) (staticChild n ! i)]) n"

text \<open>The byte looked up in \<^verbatim>\<open>staticIndices\<close>.\<close>

definition c1of :: "string \<Rightarrow> bool \<Rightarrow> char" where
  "c1of pth ist = (if escaped pth ist then thisTok pth ! 1 else hd pth)"

text \<open>The split position, one further when the token was escaped.\<close>

definition splitOf :: "string \<Rightarrow> bool \<Rightarrow> nat \<Rightarrow> nat" where
  "splitOf pth ist prefixSplit = (if escaped pth ist then prefixSplit + 1 else prefixSplit)"

text \<open>The node that \<^verbatim>\<open>splitCommonPrefix\<close> puts in the place of the child it splits at \<open>k\<close>.\<close>

definition splitNode :: "node \<Rightarrow> string \<Rightarrow> nat \<Rightarrow> node" where
  "splitNode ch tok k =
     Node [] (take k tok) (priority ch) [hd (drop k (path ch))] [set_path (drop k (path ch)) ch]
       None None False False None None"

text \<open>A node on which \<^verbatim>\<open>addPath\<close> with this pattern calls itself with the same pattern for ever:
  its only child shares the first byte with the pattern and the loop of
  \<^verbatim>\<open>splitCommonPrefix\<close> finds a common prefix of length 0.\<close>

definition spins :: "node \<Rightarrow> string \<Rightarrow> bool" where
  "spins n pth =
     (\<exists>ch. staticChild n = [ch] \<and> staticIndices n = [hd pth] \<and> pth \<noteq> []
        \<and> hd pth \<noteq> CHR ''/'' \<and> path ch \<noteq> [] \<and> hd (path ch) = hd pth
        \<and> \<not> HasPrefix (firstSegment pth) (path ch)
        \<and> rangeLoop (path ch) (firstSegment pth) 0 0 = Inr 0)"

section \<open>What a registration stores\<close>

text \<open>A function on nodes that leaves the children and the path of a node as they are.\<close>

definition shallow :: "(node \<Rightarrow> error + node) \<Rightarrow> bool" where
  "shallow f =
     (\<forall>n n1. f n = Inr n1 \<longrightarrow>
        path n1 = path n \<and> staticIndices n1 = staticIndices n \<and> staticChild n1 = staticChild n
        \<and> wildcardChild n1 = wildcardChild n \<and> catchAllChild n1 = catchAllChild n
        \<and> priority n1 = priority n \<and> leafWildcardNames n1 = leafWildcardNames n
        \<and> isCatchAll n1 = isCatchAll n)"

text \<open>The pattern that \<^verbatim>\<open>Handle\<close> inserts last: the group's prefix put in front, and the
  final slash taken off when the router redirects trailing slashes.\<close>

definition storedPath :: "TreeMux \<Rightarrow> Group \<Rightarrow> string \<Rightarrow> string" where
  "storedPath mux g pth =
     (let pth1 = group_path g @ pth
      in if length pth1 > 1 \<and> last pth1 = CHR ''/'' \<and> RedirectTrailingSlash mux
         then butlast pth1 else pth1)"

text \<open>Whether \<^verbatim>\<open>Handle\<close> took a final slash off (\<^verbatim>\<open>addSlash\<close>).\<close>

definition storedSlash :: "TreeMux \<Rightarrow> Group \<Rightarrow> string \<Rightarrow> bool" where
  "storedSlash mux g pth =
     (length (group_path g @ pth) > 1 \<and> last (group_path g @ pth) = CHR ''/''
      \<and> RedirectTrailingSlash mux)"

text \<open>The handler that \<^verbatim>\<open>Handle\<close> stores: the given one inside the group's middlewares.\<close>

definition storedHandler :: "Group \<Rightarrow> HandlerFunc \<Rightarrow> HandlerFunc" where
  "storedHandler g handler0 =
     (if length (stack g) > 0 then handlerWithMiddlewares handler0 (stack g) else handler0)"

section \<open>Patterns with bytes above 0x7F\<close>

text \<open>
  The patterns \<^verbatim>\<open>/e'x\<close>, \<^verbatim>\<open>/e`y\<close>, \<^verbatim>\<open>/e`x\<close>, \<^verbatim>\<open>/e'\<close> and \<^verbatim>\<open>/e`\<close> in UTF-8, where \<^verbatim>\<open>e'\<close> is the
  letter e with an acute accent (the bytes C3 A9) and \<^verbatim>\<open>e`\<close> the letter e with a grave
  accent (the bytes C3 A8).
\<close>

definition pathEacuteX :: string where
  "pathEacuteX = [CHR ''/'', CHR 0xC3, CHR 0xA9, CHR ''x'']"

definition pathEgraveY :: string where
  "pathEgraveY = [CHR ''/'', CHR 0xC3, CHR 0xA8, CHR ''y'']"

definition pathEgraveX :: string where
  "pathEgraveX = [CHR ''/'', CHR 0xC3, CHR 0xA8, CHR ''x'']"

definition pathEacute :: string where
  "pathEacute = [CHR ''/'', CHR 0xC3, CHR 0xA9]"

definition pathEgrave :: string where
  "pathEgrave = [CHR ''/'', CHR 0xC3, CHR 0xA8]"

text \<open>The router after the one registration of \<^verbatim>\<open>/e'\<close> for GET.\<close>

definition eacuteMux :: TreeMux where
  "eacuteMux =
     (case Handle noRequestURI (emptyMux False True False) rootGroup MethodGet pathEacute (Some 1) of
        Some (Inr m) \<Rightarrow> m
      | _ \<Rightarrow> emptyMux False True False)"

text \<open>
  An activation of \<^verbatim>\<open>addPath\<close> that ends in a call on a child, with the same pattern, where
  the child is in the state described by \<open>spins\<close>.
\<close>

definition stepSpins :: "addStep \<Rightarrow> string \<Rightarrow> bool" where
  "stepSpins s pth =
     (case s of
        Done r \<Rightarrow> False
      | Descend n1 st ch rest wc ist \<Rightarrow>
          rest = pth \<and> ist \<and>
          (case staticChild ch of
             [c] \<Rightarrow> staticIndices ch = [hd pth] \<and> pth \<noteq> [] \<and> hd pth \<noteq> CHR ''/''
                    \<and> path c \<noteq> [] \<and> hd (path c) = hd pth
                    \<and> \<not> HasPrefix (firstSegment pth) (path c)
                    \<and> rangeLoop (path c) (firstSegment pth) 0 0 = Inr 0
           | _ \<Rightarrow> False))"

section \<open>Basic facts\<close>

subsection \<open>Fields after an assignment\<close>

lemma sel_set_route [simp]:
  "route (set_route v n) = v"
  "path (set_route v n) = path n"
  "priority (set_route v n) = priority n"
  "staticIndices (set_route v n) = staticIndices n"
  "staticChild (set_route v n) = staticChild n"
  "wildcardChild (set_route v n) = wildcardChild n"
  "catchAllChild (set_route v n) = catchAllChild n"
  "addSlash (set_route v n) = addSlash n"
  "isCatchAll (set_route v n) = isCatchAll n"
  "handlerMap (set_route v n) = handlerMap n"
  "leafWildcardNames (set_route v n) = leafWildcardNames n"
  by (cases n; simp)+

lemma sel_set_path [simp]:
  "route (set_path v n) = route n"
  "path (set_path v n) = v"
  "priority (set_path v n) = priority n"
  "staticIndices (set_path v n) = staticIndices n"
  "staticChild (set_path v n) = staticChild n"
  "wildcardChild (set_path v n) = wildcardChild n"
  "catchAllChild (set_path v n) = catchAllChild n"
  "addSlash (set_path v n) = addSlash n"
  "isCatchAll (set_path v n) = isCatchAll n"
  "handlerMap (set_path v n) = handlerMap n"
  "leafWildcardNames (set_path v n) = leafWildcardNames n"
  by (cases n; simp)+

lemma sel_set_priority [simp]:
  "route (set_priority v n) = route n"
  "path (set_priority v n) = path n"
  "priority (set_priority v n) = v"
  "staticIndices (set_priority v n) = staticIndices n"
  "staticChild (set_priority v n) = staticChild n"
  "wildcardChild (set_priority v n) = wildcardChild n"
  "catchAllChild (set_priority v n) = catchAllChild n"
  "addSlash (set_priority v n) = addSlash n"
  "isCatchAll (set_priority v n) = isCatchAll n"
  "handlerMap (set_priority v n) = handlerMap n"
  "leafWildcardNames (set_priority v n) = leafWildcardNames n"
  by (cases n; simp)+

lemma sel_set_staticIndices [simp]:
  "route (set_staticIndices v n) = route n"
  "path (set_staticIndices v n) = path n"
  "priority (set_staticIndices v n) = priority n"
  "staticIndices (set_staticIndices v n) = v"
  "staticChild (set_staticIndices v n) = staticChild n"
  "wildcardChild (set_staticIndices v n) = wildcardChild n"
  "catchAllChild (set_staticIndices v n) = catchAllChild n"
  "addSlash (set_staticIndices v n) = addSlash n"
  "isCatchAll (set_staticIndices v n) = isCatchAll n"
  "handlerMap (set_staticIndices v n) = handlerMap n"
  "leafWildcardNames (set_staticIndices v n) = leafWildcardNames n"
  by (cases n; simp)+

lemma sel_set_staticChild [simp]:
  "route (set_staticChild v n) = route n"
  "path (set_staticChild v n) = path n"
  "priority (set_staticChild v n) = priority n"
  "staticIndices (set_staticChild v n) = staticIndices n"
  "staticChild (set_staticChild v n) = v"
  "wildcardChild (set_staticChild v n) = wildcardChild n"
  "catchAllChild (set_staticChild v n) = catchAllChild n"
  "addSlash (set_staticChild v n) = addSlash n"
  "isCatchAll (set_staticChild v n) = isCatchAll n"
  "handlerMap (set_staticChild v n) = handlerMap n"
  "leafWildcardNames (set_staticChild v n) = leafWildcardNames n"
  by (cases n; simp)+

lemma sel_set_wildcardChild [simp]:
  "route (set_wildcardChild v n) = route n"
  "path (set_wildcardChild v n) = path n"
  "priority (set_wildcardChild v n) = priority n"
  "staticIndices (set_wildcardChild v n) = staticIndices n"
  "staticChild (set_wildcardChild v n) = staticChild n"
  "wildcardChild (set_wildcardChild v n) = v"
  "catchAllChild (set_wildcardChild v n) = catchAllChild n"
  "addSlash (set_wildcardChild v n) = addSlash n"
  "isCatchAll (set_wildcardChild v n) = isCatchAll n"
  "handlerMap (set_wildcardChild v n) = handlerMap n"
  "leafWildcardNames (set_wildcardChild v n) = leafWildcardNames n"
  by (cases n; simp)+

lemma sel_set_catchAllChild [simp]:
  "route (set_catchAllChild v n) = route n"
  "path (set_catchAllChild v n) = path n"
  "priority (set_catchAllChild v n) = priority n"
  "staticIndices (set_catchAllChild v n) = staticIndices n"
  "staticChild (set_catchAllChild v n) = staticChild n"
  "wildcardChild (set_catchAllChild v n) = wildcardChild n"
  "catchAllChild (set_catchAllChild v n) = v"
  "addSlash (set_catchAllChild v n) = addSlash n"
  "isCatchAll (set_catchAllChild v n) = isCatchAll n"
  "handlerMap (set_catchAllChild v n) = handlerMap n"
  "leafWildcardNames (set_catchAllChild v n) = leafWildcardNames n"
  by (cases n; simp)+

lemma sel_set_addSlash [simp]:
  "route (set_addSlash v n) = route n"
  "path (set_addSlash v n) = path n"
  "priority (set_addSlash v n) = priority n"
  "staticIndices (set_addSlash v n) = staticIndices n"
  "staticChild (set_addSlash v n) = staticChild n"
  "wildcardChild (set_addSlash v n) = wildcardChild n"
  "catchAllChild (set_addSlash v n) = catchAllChild n"
  "addSlash (set_addSlash v n) = v"
  "isCatchAll (set_addSlash v n) = isCatchAll n"
  "handlerMap (set_addSlash v n) = handlerMap n"
  "leafWildcardNames (set_addSlash v n) = leafWildcardNames n"
  by (cases n; simp)+

lemma sel_set_handlerMap [simp]:
  "route (set_handlerMap v n) = route n"
  "path (set_handlerMap v n) = path n"
  "priority (set_handlerMap v n) = priority n"
  "staticIndices (set_handlerMap v n) = staticIndices n"
  "staticChild (set_handlerMap v n) = staticChild n"
  "wildcardChild (set_handlerMap v n) = wildcardChild n"
  "catchAllChild (set_handlerMap v n) = catchAllChild n"
  "addSlash (set_handlerMap v n) = addSlash n"
  "isCatchAll (set_handlerMap v n) = isCatchAll n"
  "handlerMap (set_handlerMap v n) = v"
  "leafWildcardNames (set_handlerMap v n) = leafWildcardNames n"
  by (cases n; simp)+

lemma sel_set_leafWildcardNames [simp]:
  "route (set_leafWildcardNames v n) = route n"
  "path (set_leafWildcardNames v n) = path n"
  "priority (set_leafWildcardNames v n) = priority n"
  "staticIndices (set_leafWildcardNames v n) = staticIndices n"
  "staticChild (set_leafWildcardNames v n) = staticChild n"
  "wildcardChild (set_leafWildcardNames v n) = wildcardChild n"
  "catchAllChild (set_leafWildcardNames v n) = catchAllChild n"
  "addSlash (set_leafWildcardNames v n) = addSlash n"
  "isCatchAll (set_leafWildcardNames v n) = isCatchAll n"
  "handlerMap (set_leafWildcardNames v n) = handlerMap n"
  "leafWildcardNames (set_leafWildcardNames v n) = v"
  by (cases n; simp)+

lemma sel_newNode [simp]:
  "route (newNode p) = []" "path (newNode p) = p" "priority (newNode p) = 0"
  "staticIndices (newNode p) = []" "staticChild (newNode p) = []"
  "wildcardChild (newNode p) = None" "catchAllChild (newNode p) = None"
  "addSlash (newNode p) = False" "isCatchAll (newNode p) = False"
  "handlerMap (newNode p) = None" "leafWildcardNames (newNode p) = None"
  by (simp_all add: newNode_def)
subsection \<open>Strings\<close>

lemma IndexByte_None_iff: "IndexByte s c = None \<longleftrightarrow> c \<notin> set s"
  by (induction s) auto

lemma IndexByte_Some:
  "IndexByte s c = Some k \<Longrightarrow>
   k < length s \<and> s ! k = c \<and> take k s = takeWhile (\<lambda>x. x \<noteq> c) s
   \<and> drop k s = dropWhile (\<lambda>x. x \<noteq> c) s"
  by (induction s arbitrary: k) (auto split: if_splits)

subsection \<open>The matcher, step by step\<close>

declare search.simps [simp del]

lemma search_unfold:
  "search n method pth =
     (if pth = [] then
        (case handlerMap n of
           None \<Rightarrow> Inr (None, None, [])
         | Some hm \<Rightarrow> Inr (Some n, Get hm method, []))
      else
        (case staticSearch n method pth of
           Inl e \<Rightarrow> Inl e
         | Inr (found, handler, params) \<Rightarrow>
             if handler \<noteq> None then Inr (found, handler, params)
             else
               (case wildcardSearch n method pth found handler params of
                  Inl e \<Rightarrow> Inl e
                | Inr (Return r) \<Rightarrow> Inr r
                | Inr (Continue (found1, handler1, params1)) \<Rightarrow>
                    catchAllSearch n method pth found1 handler1 params1)))"
  unfolding staticSearch_def wildcardSearch_def by (rule search.simps)

lemma search_Nil:
  "search n method [] =
     (case handlerMap n of
        None \<Rightarrow> Inr (None, None, [])
      | Some hm \<Rightarrow> Inr (Some n, Get hm method, []))"
  by (simp add: search_unfold)

subsection \<open>Results of the matcher\<close>

text \<open>
  A result that names a node pairs its parameters with the node's names read from the end;
  a result without a node has no handler and no parameter.
\<close>

lemma paramName_iff:
  "paramName n i = Inr x \<longleftrightarrow> i < length (wildcardNames n) \<and> x = rev (wildcardNames n) ! i"
  by (auto simp: paramName_def wildcardNames_def Let_def rev_nth)

definition resOK :: "searchResult \<Rightarrow> bool" where
  "resOK r =
     (case r of (found, handler, params) \<Rightarrow>
        (case found of
           None \<Rightarrow> handler = None \<and> params = []
         | Some nd \<Rightarrow> length params \<le> length (wildcardNames nd)
                       \<and> map Name params = take (length params) (rev (wildcardNames nd))))"

lemma resOK_None [simp]: "resOK (None, h, ps) \<longleftrightarrow> h = None \<and> ps = []"
  by (simp add: resOK_def)

lemma resOK_Nil [simp]: "resOK (Some nd, h, [])"
  by (simp add: resOK_def)

lemma resOK_snoc:
  assumes "resOK (Some wn, h, wps)" "paramName wn (length wps) = Inr name"
  shows "resOK (Some wn, h', wps @ [\<lparr>Name = name, Value = v\<rparr>])"
proof -
  from assms(2) have lt: "length wps < length (wildcardNames wn)"
    and nm: "name = rev (wildcardNames wn) ! length wps"
    by (simp_all add: paramName_iff)
  from assms(1) have m: "map Name wps = take (length wps) (rev (wildcardNames wn))"
    by (simp add: resOK_def)
  have "take (Suc (length wps)) (rev (wildcardNames wn))
        = take (length wps) (rev (wildcardNames wn)) @ [rev (wildcardNames wn) ! length wps]"
    using lt by (simp add: take_Suc_conv_app_nth)
  then show ?thesis using lt nm m by (simp add: resOK_def)
qed

lemma resOK_handler: "resOK (found, h, ps) \<Longrightarrow> resOK (found, None, ps)"
  by (auto simp: resOK_def split: option.splits)

lemma wildcardResult_ok:
  assumes "resOK (found, handler, params)" "resOK (wcNode, wcHandler, wcParams)"
    and "wildcardResult found handler params tok wcNode wcHandler wcParams = Inr fl"
  shows "case fl of Return r \<Rightarrow> resOK r | Continue r \<Rightarrow> resOK r"
  using assms
  by (auto simp: wildcardResult_def Let_def resOK_snoc split: if_splits option.splits sum.splits)

lemma catchAllSearch_ok:
  assumes "resOK (found, handler, params)"
    and "catchAllSearch n method pth found handler params = Inr r"
  shows "resOK r"
proof (cases "catchAllChild n")
  case None
  with assms show ?thesis by (simp add: catchAllSearch_def)
next
  case (Some c)
  have one: "\<And>name h v. paramName c 0 = Inr name \<Longrightarrow> resOK (Some c, h, [\<lparr>Name = name, Value = v\<rparr>])"
    using resOK_snoc [of c None "[]"] by simp
  from assms Some show ?thesis
    by (auto simp: catchAllSearch_def Let_def one split: option.splits if_splits sum.splits
        dest: resOK_handler)
qed

lemma node_children_induct [case_names node]:
  assumes step: "\<And>n. (\<And>i. i < length (staticChild n) \<Longrightarrow> P (staticChild n ! i))
                   \<Longrightarrow> (\<And>w. wildcardChild n = Some w \<Longrightarrow> P w)
                   \<Longrightarrow> (\<And>c. catchAllChild n = Some c \<Longrightarrow> P c) \<Longrightarrow> P n"
  shows "P n"
proof (induction "size n" arbitrary: n rule: less_induct)
  case less
  show ?case
    by (rule step) (auto intro!: less simp: size_staticChild size_wildcardChild size_catchAllChild)
qed

lemma search_ok: "search n method pth = Inr r \<Longrightarrow> resOK r"
proof (induction n arbitrary: pth r rule: node_children_induct)
  case (node n)
  show ?case
  proof (cases "pth = []")
    case True
    with node.prems show ?thesis by (auto simp: search_Nil split: option.splits)
  next
    case False
    from node.prems False obtain sf sh sp where
      st: "staticSearch n method pth = Inr (sf, sh, sp)"
      by (auto simp: search_unfold split: sum.splits)
    have sok: "resOK (sf, sh, sp)"
      using st node.IH(1)
      by (auto simp: staticSearch_def split: option.splits if_splits)
    show ?thesis
    proof (cases "sh = None")
      case False
      with node.prems \<open>pth \<noteq> []\<close> st sok show ?thesis by (simp add: search_unfold)
    next
      case True
      from node.prems \<open>pth \<noteq> []\<close> st True obtain fl where
        wc: "wildcardSearch n method pth sf sh sp = Inr fl"
        by (auto simp: search_unfold split: sum.splits)
      have wok: "case fl of Return r \<Rightarrow> resOK r | Continue r \<Rightarrow> resOK r"
      proof (cases "wildcardChild n")
        case None
        with wc sok show ?thesis by (auto simp: wildcardSearch_def)
      next
        case (Some w)
        let ?k = "case IndexByte pth CHR ''/'' of None \<Rightarrow> length pth | Some k \<Rightarrow> k"
        show ?thesis
        proof (cases "take ?k pth = []")
          case True
          with wc sok Some show ?thesis by (auto simp: wildcardSearch_def Let_def)
        next
          case nonempty: False
          from wc Some nonempty obtain wn wh wps where
            sub: "search w method (drop ?k pth) = Inr (wn, wh, wps)"
            and res: "wildcardResult sf sh sp (take ?k pth) wn wh wps = Inr fl"
            by (auto simp: wildcardSearch_def Let_def split: sum.splits)
          have "resOK (wn, wh, wps)" by (rule node.IH(2) [OF Some sub])
          from wildcardResult_ok [OF sok this res] show ?thesis .
        qed
      qed
      from node.prems \<open>pth \<noteq> []\<close> st True wc wok show ?thesis
        by (auto simp: search_unfold split: flow.splits dest: catchAllSearch_ok)
    qed
  qed
qed

lemma token_take:
  "take (case IndexByte pth c of None \<Rightarrow> length pth | Some k \<Rightarrow> k) pth
   = takeWhile (\<lambda>x. x \<noteq> c) pth"
proof (cases "IndexByte pth c")
  case None
  then have "c \<notin> set pth" by (simp add: IndexByte_None_iff)
  then have tw: "takeWhile (\<lambda>x. x \<noteq> c) pth = pth" by (auto simp: takeWhile_eq_all_conv)
  show ?thesis unfolding None tw by simp
next
  case (Some k)
  with IndexByte_Some [OF Some] show ?thesis by simp
qed

lemma token_drop:
  "drop (case IndexByte pth c of None \<Rightarrow> length pth | Some k \<Rightarrow> k) pth
   = dropWhile (\<lambda>x. x \<noteq> c) pth"
proof (cases "IndexByte pth c")
  case None
  then have "c \<notin> set pth" by (simp add: IndexByte_None_iff)
  then have dw: "dropWhile (\<lambda>x. x \<noteq> c) pth = []" by (auto simp: dropWhile_eq_Nil_conv)
  show ?thesis unfolding None dw by simp
next
  case (Some k)
  with IndexByte_Some [OF Some] show ?thesis by simp
qed

lemma wildcardSearch_eq:
  "wildcardSearch n method pth found handler params =
     (case wildcardChild n of
        None \<Rightarrow> Inr (Continue (found, handler, params))
      | Some w \<Rightarrow>
          if firstSegment pth \<noteq> [] then
            (case search w method (afterSegment pth) of
               Inl e \<Rightarrow> Inl e
             | Inr (wcNode, wcHandler, wcParams) \<Rightarrow>
                 wildcardResult found handler params (firstSegment pth) wcNode wcHandler wcParams)
          else Inr (Continue (found, handler, params)))"
  unfolding wildcardSearch_def Let_def token_take token_drop firstSegment_def afterSegment_def
  by (rule refl)

lemma search_wildcard_step:
  assumes "pth \<noteq> []" "staticSearch n method pth = Inr (sf, None, sp)"
    and "wildcardChild n = Some w" "firstSegment pth \<noteq> []"
    and "search w method (afterSegment pth) = Inr (Some wn, Some h, wps)"
    and "paramName wn (length wps) = Inr name"
  shows "search n method pth
         = Inr (Some wn, Some h, wps @ [\<lparr>Name = name, Value = unescapeOrRaw (firstSegment pth)\<rparr>])"
  using assms by (simp add: search_unfold wildcardSearch_eq wildcardResult_def)

lemma search_catchAll_step:
  assumes "pth \<noteq> []" "staticSearch n method pth = Inr (sf, None, sp)"
    and "wildcardSearch n method pth sf None sp = Inr (Continue (f1, h1, p1))"
    and "catchAllChild n = Some c" "handlerMap c = Some hm" "Get hm method = Some h"
    and "paramName c 0 = Inr name"
  shows "search n method pth = Inr (Some c, Some h, [\<lparr>Name = name, Value = unescapeOrRaw pth\<rparr>])"
  using assms by (simp add: search_unfold catchAllSearch_def)

subsection \<open>Insertion, step by step\<close>

text \<open>What an activation of \<^verbatim>\<open>addPath\<close> returns from the result of the call it ends in.\<close>

definition lift :: "node \<Rightarrow> step \<Rightarrow> error + node \<times> step list \<Rightarrow> error + node \<times> step list" where
  "lift n1 st r = (case r of Inl e \<Rightarrow> Inl e | Inr (child1, leaf) \<Rightarrow> Inr (plug n1 st child1, st # leaf))"

lemma addPath_Done: "addPathStep n pth wc ist = Done r \<Longrightarrow> addPath n pth wc ist = Some r"
  by (subst addPath.simps) simp

lemma addPath_Descend:
  "addPathStep n pth wc ist = Descend n1 st ch rest wc1 ist1 \<Longrightarrow>
   addPath n pth wc ist = map_option (lift n1 st) (addPath ch rest wc1 ist1)"
  by (subst addPath.simps) (cases "addPath ch rest wc1 ist1"; simp add: lift_def)

lemma addPath_induct [consumes 1, case_names Done Descend]:
  assumes run: "addPath n pth wc ist = Some r"
    and base: "\<And>n pth wc ist r. addPathStep n pth wc ist = Done r \<Longrightarrow> P n pth wc ist r"
    and desc: "\<And>n pth wc ist n1 st ch rest wc1 ist1 r1.
        addPathStep n pth wc ist = Descend n1 st ch rest wc1 ist1 \<Longrightarrow>
        addPath ch rest wc1 ist1 = Some r1 \<Longrightarrow> P ch rest wc1 ist1 r1 \<Longrightarrow>
        P n pth wc ist (lift n1 st r1)"
  shows "P n pth wc ist r"
proof -
  have "addPath n pth wc ist = Some r \<and> P n pth wc ist r"
  proof (rule addPath.raw_induct
      [where P = "\<lambda>n pth wc ist r. addPath n pth wc ist = Some r \<and> P n pth wc ist r", OF _ run])
    fix f n pth wc ist r
    assume IH: "\<And>n pth wc ist y. f n pth wc ist = Some y \<Longrightarrow>
                  addPath n pth wc ist = Some y \<and> P n pth wc ist y"
      and body: "(case addPathStep n pth wc ist of
                    Done r \<Rightarrow> Some r
                  | Descend n1 st child rest wildcards1 inStaticToken1 \<Rightarrow>
                      Option.bind (f child rest wildcards1 inStaticToken1)
                        (\<lambda>r. Some (case r of
                                     Inl e \<Rightarrow> Inl e
                                   | Inr (child1, leaf) \<Rightarrow> Inr (plug n1 st child1, st # leaf))))
                 = Some r"
    show "addPath n pth wc ist = Some r \<and> P n pth wc ist r"
    proof (cases "addPathStep n pth wc ist")
      case (Done r')
      with body have "r' = r" by simp
      with Done show ?thesis by (simp add: addPath_Done base)
    next
      case (Descend n1 st ch rest wc1 ist1)
      with body obtain r1 where f: "f ch rest wc1 ist1 = Some r1" and r: "r = lift n1 st r1"
        by (auto simp: lift_def split: bind_splits)
      from IH [OF f] have a: "addPath ch rest wc1 ist1 = Some r1" and p: "P ch rest wc1 ist1 r1"
        by simp_all
      from addPath_Descend [OF Descend] a r have "addPath n pth wc ist = Some r" by simp
      moreover from desc [OF Descend a p] r have "P n pth wc ist r" by simp
      ultimately show ?thesis by simp
    qed
  qed
  then show ?thesis by simp
qed

subsection \<open>The invariant under assignments\<close>

lemma treeInv_iff:
  "treeInv n \<longleftrightarrow>
     childrenOK (staticIndices n) (staticChild n) \<and> list_all treeInv (staticChild n)
     \<and> (\<forall>w. wildcardChild n = Some w \<longrightarrow> treeInv w)
     \<and> (\<forall>c. catchAllChild n = Some c \<longrightarrow> treeInv c)"
  by (cases n) (auto split: option.splits)

lemma treeInvI:
  assumes "childrenOK (staticIndices n) (staticChild n)" "list_all treeInv (staticChild n)"
    and "\<And>w. wildcardChild n = Some w \<Longrightarrow> treeInv w"
    and "\<And>c. catchAllChild n = Some c \<Longrightarrow> treeInv c"
  shows "treeInv n"
  using assms by (subst treeInv_iff) blast

lemma treeInvD:
  assumes "treeInv n"
  shows "childrenOK (staticIndices n) (staticChild n)" "list_all treeInv (staticChild n)"
    and "\<And>w. wildcardChild n = Some w \<Longrightarrow> treeInv w"
    and "\<And>c. catchAllChild n = Some c \<Longrightarrow> treeInv c"
  using assms by (subst (asm) treeInv_iff, blast)+

lemma okPath_nonempty: "okPath p \<Longrightarrow> p \<noteq> []"
  by (simp add: okPath_def)

lemma okPath_take: "okPath p \<Longrightarrow> 1 \<le> k \<Longrightarrow> okPath (take k p)"
  by (cases p; cases k) (auto simp: okPath_def dest: in_set_takeD)

lemma okPath_drop: "okPath p \<Longrightarrow> k < length p \<Longrightarrow> okPath (drop k p)"
  by (cases "p = ''/''") (auto simp: okPath_def dest: in_set_dropD)

lemma childrenOK_length: "childrenOK si sc \<Longrightarrow> length si = length sc"
  by (auto simp: childrenOK_def)

lemma childrenOK_nth:
  "childrenOK si sc \<Longrightarrow> i < length sc \<Longrightarrow>
     path (sc ! i) \<noteq> [] \<and> hd (path (sc ! i)) = si ! i \<and> okPath (path (sc ! i))"
  by (auto simp: childrenOK_def list_all_length okPath_def)

lemma firstIndex_None_iff: "firstIndex xs c = None \<longleftrightarrow> c \<notin> set xs"
  by (induction xs) auto

lemma firstIndex_Some: "firstIndex xs c = Some i \<Longrightarrow> i < length xs \<and> xs ! i = c"
  by (induction xs arbitrary: i) (auto split: if_splits)

lemma firstIndex_distinct:
  "distinct xs \<Longrightarrow> i < length xs \<Longrightarrow> firstIndex xs (xs ! i) = Some i"
proof (induction xs arbitrary: i)
  case Nil then show ?case by simp
next
  case (Cons x xs)
  then show ?case by (cases i) auto
qed

lemma treeInv_newNode [simp]: "treeInv (newNode p)"
  by (simp add: newNode_def childrenOK_def)

lemma treeInv_set_path [simp]: "treeInv (set_path p n) = treeInv n"
  by (cases n) simp

lemma treeInv_set_priority [simp]: "treeInv (set_priority p n) = treeInv n"
  by (cases n) simp

lemma treeInv_set_leafWildcardNames [simp]: "treeInv (set_leafWildcardNames p n) = treeInv n"
  by (cases n) simp

lemma treeInv_set_route [simp]: "treeInv (set_route p n) = treeInv n"
  by (cases n) simp

lemma treeInv_set_addSlash [simp]: "treeInv (set_addSlash p n) = treeInv n"
  by (cases n) simp

lemma treeInv_set_handlerMap [simp]: "treeInv (set_handlerMap p n) = treeInv n"
  by (cases n) simp

lemma treeInv_child: "treeInv n \<Longrightarrow> i < length (staticChild n) \<Longrightarrow> treeInv (staticChild n ! i)"
  using treeInvD(2) [of n] by (simp add: list_all_length)

lemma childrenOK_update:
  assumes "childrenOK si sc" "j < length sc" "path ch = path (sc ! j)"
  shows "childrenOK si (sc[j := ch])"
proof -
  have "map (\<lambda>c. hd (path c)) (sc[j := ch]) = (map (\<lambda>c. hd (path c)) sc)[j := hd (path ch)]"
    by (simp add: map_update)
  also have "\<dots> = map (\<lambda>c. hd (path c)) sc"
    using assms(2,3) by (simp add: list_update_same_conv)
  finally have m: "map (\<lambda>c. hd (path c)) (sc[j := ch]) = si"
    using assms(1) by (simp add: childrenOK_def)
  have "list_all (\<lambda>c. okPath (path c)) (sc[j := ch])"
    using assms by (auto simp: childrenOK_def list_all_length nth_list_update)
  with m assms(1) show ?thesis by (simp add: childrenOK_def)
qed

lemma treeInv_plug_Static:
  assumes "treeInv n" "j < length (staticChild n)" "treeInv ch"
    and "path ch = path (staticChild n ! j)"
  shows "treeInv (plug n (Static j) ch)"
proof -
  note d = treeInvD [OF assms(1)]
  have la: "list_all treeInv ((staticChild n)[j := ch])"
    using d(2) assms(2,3) by (auto simp: list_all_length nth_list_update)
  show ?thesis
  proof (rule treeInvI)
    show "childrenOK (staticIndices (plug n (Static j) ch)) (staticChild (plug n (Static j) ch))"
      using childrenOK_update [OF d(1) assms(2,4)] by simp
    show "list_all treeInv (staticChild (plug n (Static j) ch))" using la by simp
    show "\<And>w. wildcardChild (plug n (Static j) ch) = Some w \<Longrightarrow> treeInv w"
      by (rule d(3)) simp
    show "\<And>c. catchAllChild (plug n (Static j) ch) = Some c \<Longrightarrow> treeInv c"
      by (rule d(4)) simp
  qed
qed

lemma treeInv_plug_Wildcard:
  assumes "treeInv n" "treeInv ch"
  shows "treeInv (plug n Wildcard ch)"
proof (rule treeInvI)
  note d = treeInvD [OF assms(1)]
  show "childrenOK (staticIndices (plug n Wildcard ch)) (staticChild (plug n Wildcard ch))"
    using d(1) by simp
  show "list_all treeInv (staticChild (plug n Wildcard ch))" using d(2) by simp
  show "\<And>w. wildcardChild (plug n Wildcard ch) = Some w \<Longrightarrow> treeInv w"
    using assms(2) by simp
  show "\<And>c. catchAllChild (plug n Wildcard ch) = Some c \<Longrightarrow> treeInv c"
    by (rule d(4)) simp
qed

lemma treeInv_plug_CatchAll:
  assumes "treeInv n" "treeInv ch"
  shows "treeInv (plug n CatchAll ch)"
proof (rule treeInvI)
  note d = treeInvD [OF assms(1)]
  show "childrenOK (staticIndices (plug n CatchAll ch)) (staticChild (plug n CatchAll ch))"
    using d(1) by simp
  show "list_all treeInv (staticChild (plug n CatchAll ch))" using d(2) by simp
  show "\<And>w. wildcardChild (plug n CatchAll ch) = Some w \<Longrightarrow> treeInv w"
    by (rule d(3)) simp
  show "\<And>c. catchAllChild (plug n CatchAll ch) = Some c \<Longrightarrow> treeInv c"
    using assms(2) by simp
qed

lemma path_plug [simp]: "path (plug n st ch) = path n"
  by (cases st) simp_all

subsection \<open>sortStaticChild\<close>

lemma childrenOK_swap:
  assumes "childrenOK si sc" "Suc k < length sc"
  shows "childrenOK (si[Suc k := si ! k, k := si ! Suc k]) (sc[Suc k := sc ! k, k := sc ! Suc k])"
proof -
  from assms have len: "length si = length sc" by (simp add: childrenOK_length)
  have m: "map (\<lambda>c. hd (path c)) sc = si" using assms(1) by (simp add: childrenOK_def)
  have "map (\<lambda>c. hd (path c)) (sc[Suc k := sc ! k, k := sc ! Suc k])
        = (map (\<lambda>c. hd (path c)) sc)[Suc k := hd (path (sc ! k)), k := hd (path (sc ! Suc k))]"
    by (simp add: map_update)
  also have "\<dots> = si[Suc k := si ! k, k := si ! Suc k]"
    using assms(2) m by (metis Suc_lessD nth_map)
  finally have 1: "map (\<lambda>c. hd (path c)) (sc[Suc k := sc ! k, k := sc ! Suc k])
                   = si[Suc k := si ! k, k := si ! Suc k]" .
  have "set (sc[Suc k := sc ! k, k := sc ! Suc k]) = set sc"
    using assms(2) by (simp add: set_swap)
  then have 2: "list_all (\<lambda>c. okPath (path c)) (sc[Suc k := sc ! k, k := sc ! Suc k])"
    using assms(1) by (simp add: childrenOK_def list_all_iff)
  have 3: "distinct (si[Suc k := si ! k, k := si ! Suc k])"
    using assms len by (simp add: distinct_swap childrenOK_def)
  from 1 2 3 show ?thesis by (simp add: childrenOK_def)
qed

lemma sortStaticChild_props:
  assumes "treeInv n" "i < length (staticChild n)" "sortStaticChild n i = (n3, j)"
  shows "treeInv n3 \<and> j \<le> i \<and> length (staticChild n3) = length (staticChild n)
         \<and> staticChild n3 ! j = staticChild n ! i \<and> path n3 = path n
         \<and> set (staticChild n3) = set (staticChild n)
         \<and> wildcardChild n3 = wildcardChild n \<and> catchAllChild n3 = catchAllChild n"
  using assms
proof (induction i arbitrary: n)
  case 0
  then show ?case by simp
next
  case (Suc k)
  let ?sc = "staticChild n" and ?si = "staticIndices n"
  show ?case
  proof (cases "priority (?sc ! Suc k) > priority (?sc ! k)")
    case False
    with Suc.prems show ?thesis by simp
  next
    case True
    let ?n1 = "set_staticIndices (?si[Suc k := ?si ! k, k := ?si ! Suc k])
                 (set_staticChild (?sc[Suc k := ?sc ! k, k := ?sc ! Suc k]) n)"
    from Suc.prems True have s: "sortStaticChild ?n1 k = (n3, j)" by simp
    note d = treeInvD [OF Suc.prems(1)]
    note ok = d(1) and all = d(2)
    have seteq: "set (?sc[Suc k := ?sc ! k, k := ?sc ! Suc k]) = set ?sc"
      using Suc.prems(2) by (simp add: set_swap)
    have inv1: "treeInv ?n1"
    proof (rule treeInvI)
      show "childrenOK (staticIndices ?n1) (staticChild ?n1)"
        using childrenOK_swap [OF ok Suc.prems(2)] by simp
      show "list_all treeInv (staticChild ?n1)" using all seteq by (simp add: list_all_iff)
      show "\<And>w. wildcardChild ?n1 = Some w \<Longrightarrow> treeInv w" by (rule d(3)) simp
      show "\<And>c. catchAllChild ?n1 = Some c \<Longrightarrow> treeInv c" by (rule d(4)) simp
    qed
    have k: "k < length (staticChild ?n1)" using Suc.prems(2) by simp
    from Suc.IH [OF inv1 k s] Suc.prems(2) seteq show ?thesis by simp
  qed
qed

section \<open>Insertion keeps the tree well formed\<close>

subsection \<open>The tokens of a pattern\<close>

lemma token_case:
  "(case IndexByte pth c of None \<Rightarrow> pth | Some k \<Rightarrow> take k pth) = takeWhile (\<lambda>x. x \<noteq> c) pth"
  using token_take [of pth c] by (cases "IndexByte pth c") simp_all

lemma thisTok_eq:
  "(if hd pth = CHR ''/'' then ''/''
    else case IndexByte pth CHR ''/'' of None \<Rightarrow> pth | Some k \<Rightarrow> take k pth) = thisTok pth"
  by (simp add: thisTok_def token_case firstSegment_def)

lemma remaining_eq:
  "drop (if hd pth = CHR ''/'' then 1
         else case IndexByte pth CHR ''/'' of None \<Rightarrow> length pth | Some k \<Rightarrow> k) pth
   = remaining pth"
  by (simp add: remaining_def token_drop afterSegment_def drop_Suc)

lemma thisTok_nonempty: "pth \<noteq> [] \<Longrightarrow> thisTok pth \<noteq> [] \<and> hd (thisTok pth) = hd pth"
  by (cases pth) (auto simp: thisTok_def firstSegment_def)

lemma thisTok_remaining: "pth \<noteq> [] \<Longrightarrow> thisTok pth @ remaining pth = pth"
  by (cases pth) (auto simp: thisTok_def remaining_def firstSegment_def afterSegment_def)

lemma litTok_nonempty: "pth \<noteq> [] \<Longrightarrow> litTok pth ist \<noteq> []"
  using thisTok_nonempty [of pth]
  by (cases "thisTok pth") (auto simp: litTok_def escaped_def)

lemma thisTok_ok: "pth \<noteq> [] \<Longrightarrow> okPath (thisTok pth)"
  by (cases pth) (auto simp: thisTok_def firstSegment_def okPath_def dest: set_takeWhileD)

lemma litTok_ok: "pth \<noteq> [] \<Longrightarrow> okPath (litTok pth ist)"
  using thisTok_ok [of pth]
  by (cases "thisTok pth"; cases "tl (thisTok pth)") (auto simp: litTok_def escaped_def okPath_def)

lemma c1_eq:
  "pth \<noteq> [] \<Longrightarrow> (if escaped pth ist then thisTok pth ! 1 else hd pth) = hd (litTok pth ist)"
  using thisTok_nonempty [of pth]
  by (cases "thisTok pth"; cases "tl (thisTok pth)") (auto simp: litTok_def escaped_def)

lemma addPathStep_Nil: "addPathStep n [] wc ist = Done (addPathLeaf n wc)"
  by (simp add: addPathStep_def)

lemma c1of_eq: "pth \<noteq> [] \<Longrightarrow> c1of pth ist = hd (litTok pth ist)"
  unfolding c1of_def by (rule c1_eq)

lemma addPathStep_unfold:
  "addPathStep n pth wc ist =
     (if pth = [] then Done (addPathLeaf n wc)
      else if hd pth = CHR ''*'' \<and> \<not> ist then
        Done (addPathCatchAll n pth (tl (thisTok pth)) (IndexByte pth CHR ''/'') wc)
      else if hd pth = CHR '':'' \<and> \<not> ist then
        Descend
          (set_wildcardChild
             (Some (case wildcardChild n of None \<Rightarrow> newNode ''wildcard'' | Some w \<Rightarrow> w)) n)
          Wildcard (case wildcardChild n of None \<Rightarrow> newNode ''wildcard'' | Some w \<Rightarrow> w)
          (remaining pth) (appendName wc (tl (thisTok pth))) False
      else
        (case firstIndex (staticIndices n) (c1of pth ist) of
           None \<Rightarrow>
             Descend (addChild n (c1of pth ist) (newNode (litTok pth ist)))
               (Static (length (staticChild (addChild n (c1of pth ist) (newNode (litTok pth ist))))
                        - 1))
               (newNode (litTok pth ist)) (remaining pth) wc (c1of pth ist \<noteq> CHR ''/'')
         | Some i \<Rightarrow>
             (case splitCommonPrefix n i (litTok pth ist) of
                Inl e \<Rightarrow> Done (Inl e)
              | Inr (n1, prefixSplit) \<Rightarrow>
                  (case sortStaticChild (bump n1 i) i of
                     (n3, j) \<Rightarrow>
                       if length pth < splitOf pth ist prefixSplit
                       then Done (Inl ErrIndexOutOfRange)
                       else Descend n3 (Static j) (staticChild n3 ! j)
                              (drop (splitOf pth ist prefixSplit) pth) wc
                              (c1of pth ist \<noteq> CHR ''/'')))))"
  unfolding addPathStep_def Let_def
  unfolding thisTok_eq remaining_eq
  unfolding escaped_def [symmetric]
  unfolding litTok_def [symmetric] c1of_def [symmetric] splitOf_def [symmetric]
  unfolding bump_def [symmetric] addChild_def [symmetric]
  by (rule refl)

subsection \<open>The loop over the runes of the child's path\<close>

lemma rangeLoop_result: "rangeLoop cp pth k i = Inr r \<Longrightarrow> r = i \<or> k \<le> r"
proof (induction cp pth k i rule: rangeLoop.induct)
  case (1 cp pth k i)
  show ?case
  proof (cases "k < length cp \<and> k < length pth \<and> pth ! k = cp ! k")
    case True
    with "1.prems" have "rangeLoop cp pth (k + Suc (runeExtra (drop k cp))) k = Inr r"
      by (subst (asm) rangeLoop.simps) simp
    with "1.IH" True show ?thesis by fastforce
  next
    case False
    with "1.prems" show ?thesis
      by (subst (asm) rangeLoop.simps) (auto split: if_splits)
  qed
qed

lemma rangeLoop_le: "rangeLoop cp pth k i = Inr r \<Longrightarrow> i \<le> length pth \<Longrightarrow> r \<le> length pth"
proof (induction cp pth k i rule: rangeLoop.induct)
  case (1 cp pth k i)
  show ?case
  proof (cases "k < length cp \<and> k < length pth \<and> pth ! k = cp ! k")
    case True
    with "1.prems" have "rangeLoop cp pth (k + Suc (runeExtra (drop k cp))) k = Inr r"
      by (subst (asm) rangeLoop.simps) simp
    with "1.IH" True show ?thesis by fastforce
  next
    case False
    with "1.prems" show ?thesis
      by (subst (asm) rangeLoop.simps) (auto split: if_splits)
  qed
qed

lemma rangeLoop_zero:
  assumes "rangeLoop cp pth 0 0 = Inr 0" "cp \<noteq> []" "pth \<noteq> []" "hd cp = hd pth"
    and "\<not> HasPrefix pth cp"
  shows "1 \<le> runeExtra cp"
proof (rule ccontr)
  assume "\<not> 1 \<le> runeExtra cp"
  then have e: "runeExtra cp = 0" by simp
  from assms(2,3,4) have h: "pth ! 0 = cp ! 0" by (simp add: hd_conv_nth)
  from assms(1,2,3) h e have l: "rangeLoop cp pth (Suc 0) 0 = Inr 0"
    by (subst (asm) rangeLoop.simps) simp
  have "length cp \<noteq> Suc 0"
  proof
    assume "length cp = Suc 0"
    then have "cp = [hd cp]" by (cases cp) simp_all
    with assms(3,4) have "HasPrefix pth cp"
      by (cases pth) (auto simp: HasPrefix_def)
    with assms(5) show False by simp
  qed
  with assms(2) have c: "Suc 0 < length cp" by (cases cp) auto
  show False
  proof (cases "length pth = Suc 0")
    case True
    with l c show False by (subst (asm) rangeLoop.simps) simp
  next
    case False
    with assms(3) have p: "Suc 0 < length pth" by (cases pth) auto
    show False
    proof (cases "pth ! Suc 0 = cp ! Suc 0")
      case True
      with l c p
      have "rangeLoop cp pth (Suc 0 + Suc (runeExtra (drop (Suc 0) cp))) (Suc 0) = Inr 0"
        by (subst (asm) rangeLoop.simps) (auto split: if_splits)
      from rangeLoop_result [OF this] show False by simp
    next
      case False
      with l c p show False by (subst (asm) rangeLoop.simps) (auto split: if_splits)
    qed
  qed
qed

lemma runeExtra_byte: "1 \<le> runeExtra s \<Longrightarrow> 0xC2 \<le> byte (hd s)"
  by (cases s) (auto simp: runeExtra_def Let_def split: if_splits)

lemma byte_slash: "byte CHR ''/'' = 47"
  by (simp add: byte_def)

subsection \<open>splitCommonPrefix\<close>

lemma splitCommonPrefix_cases:
  assumes "splitCommonPrefix n i tok = Inr (n1, k)"
  obtains (same) "i < length (staticChild n)" "HasPrefix tok (path (staticChild n ! i))"
      "n1 = n" "k = length (path (staticChild n ! i))"
  | (split) "i < length (staticChild n)" "\<not> HasPrefix tok (path (staticChild n ! i))"
      "rangeLoop (path (staticChild n ! i)) tok 0 0 = Inr k"
      "drop k (path (staticChild n ! i)) \<noteq> []"
      "n1 = set_staticChild ((staticChild n)[i := splitNode (staticChild n ! i) tok k]) n"
proof -
  from assms have i: "i < length (staticChild n)"
    by (auto simp: splitCommonPrefix_def split: if_splits)
  show thesis
  proof (cases "HasPrefix tok (path (staticChild n ! i))")
    case True
    with assms i show thesis by (intro same) (auto simp: splitCommonPrefix_def Let_def)
  next
    case False
    with assms i obtain r where r: "rangeLoop (path (staticChild n ! i)) tok 0 0 = Inr r"
      by (auto simp: splitCommonPrefix_def Let_def split: sum.splits)
    with assms i False have d: "drop r (path (staticChild n ! i)) \<noteq> []"
      by (auto simp: splitCommonPrefix_def Let_def split: list.splits)
    then obtain b bs where bs: "drop r (path (staticChild n ! i)) = b # bs"
      by (cases "drop r (path (staticChild n ! i))") auto
    from assms i False r bs have "k = r"
      and "n1 = set_staticChild ((staticChild n)[i := splitNode (staticChild n ! i) tok r]) n"
      by (auto simp: splitCommonPrefix_def Let_def splitNode_def)
    with i False r d show thesis by (intro split) auto
  qed
qed

lemma treeInv_splitNode:
  assumes "treeInv ch" "drop k (path ch) \<noteq> []" "okPath (path ch)"
  shows "treeInv (splitNode ch tok k)"
  using assms okPath_drop [of "path ch" k] by (simp add: splitNode_def childrenOK_def)

lemma childrenOK_replace:
  assumes "childrenOK si sc" "j < length sc" "okPath (path ch)" "hd (path ch) = si ! j"
  shows "childrenOK si (sc[j := ch])"
proof -
  from assms(1) have m: "map (\<lambda>c. hd (path c)) sc = si" by (simp add: childrenOK_def)
  have "map (\<lambda>c. hd (path c)) (sc[j := ch]) = (map (\<lambda>c. hd (path c)) sc)[j := hd (path ch)]"
    by (simp add: map_update)
  also have "\<dots> = si" using m assms(4) by (simp add: list_update_same_conv)
  finally have 1: "map (\<lambda>c. hd (path c)) (sc[j := ch]) = si" .
  have "list_all (\<lambda>c. okPath (path c)) (sc[j := ch])"
    using assms by (auto simp: childrenOK_def list_all_length nth_list_update)
  with 1 assms(1) show ?thesis by (simp add: childrenOK_def)
qed

lemma treeInv_replace:
  assumes "treeInv n" "j < length (staticChild n)" "treeInv ch"
    and "okPath (path ch)" "hd (path ch) = staticIndices n ! j"
  shows "treeInv (set_staticChild ((staticChild n)[j := ch]) n)"
proof (rule treeInvI)
  note d = treeInvD [OF assms(1)]
  let ?n = "set_staticChild ((staticChild n)[j := ch]) n"
  show "childrenOK (staticIndices ?n) (staticChild ?n)"
    using childrenOK_replace [OF d(1) assms(2,4,5)] by simp
  show "list_all treeInv (staticChild ?n)"
    using d(2) assms(2,3) by (auto simp: list_all_length nth_list_update)
  show "\<And>w. wildcardChild ?n = Some w \<Longrightarrow> treeInv w" by (rule d(3)) simp
  show "\<And>c. catchAllChild ?n = Some c \<Longrightarrow> treeInv c" by (rule d(4)) simp
qed

lemma HasPrefix_take: "HasPrefix s pre \<Longrightarrow> pre = take (length pre) s \<and> length pre \<le> length s"
  by (simp add: HasPrefix_def)

lemma splitCommonPrefix_treeInv:
  assumes "treeInv n" "splitCommonPrefix n i tok = Inr (n1, k)" "okPath tok"
    and "hd tok = staticIndices n ! i"
    and "1 \<le> k \<or> HasPrefix tok (path (staticChild n ! i))"
  shows "treeInv n1 \<and> path n1 = path n \<and> i < length (staticChild n1)
         \<and> path (staticChild n1 ! i) = take k tok \<and> k \<le> length tok
         \<and> staticIndices n1 = staticIndices n"
  using assms(2)
proof (cases rule: splitCommonPrefix_cases)
  case same
  with assms(1) HasPrefix_take [OF same(2)] show ?thesis by simp
next
  case split
  from split(2) assms(5) have k: "1 \<le> k" by simp
  let ?ch = "staticChild n ! i"
  have le: "k \<le> length tok" using rangeLoop_le [OF split(3)] by simp
  have p: "path (splitNode ?ch tok k) = take k tok" by (simp add: splitNode_def)
  have tokne: "tok \<noteq> []" using assms(3) by (rule okPath_nonempty)
  have ne: "okPath (take k tok)" using k assms(3) by (simp add: okPath_take)
  have hd: "hd (take k tok) = staticIndices n ! i" using k tokne assms(4) by (cases tok; cases k) auto
  have okc: "okPath (path ?ch)"
    using childrenOK_nth [OF treeInvD(1) [OF assms(1)] split(1)] by simp
  have "treeInv (splitNode ?ch tok k)"
    by (rule treeInv_splitNode [OF treeInv_child [OF assms(1) split(1)] split(4) okc])
  from treeInv_replace [OF assms(1) split(1) this] p ne hd split(1,5) le show ?thesis by simp
qed

lemma sortStaticChild_child:
  assumes "i < length (staticChild n)" "sortStaticChild n i = (n3, j)"
  shows "j \<le> i \<and> length (staticChild n3) = length (staticChild n)
         \<and> staticChild n3 ! j = staticChild n ! i \<and> path n3 = path n"
  using assms
proof (induction i arbitrary: n)
  case 0
  then show ?case by simp
next
  case (Suc k)
  show ?case
  proof (cases "priority (staticChild n ! Suc k) > priority (staticChild n ! k)")
    case False
    with Suc.prems show ?thesis by simp
  next
    case True
    let ?sc = "staticChild n" and ?si = "staticIndices n"
    let ?n1 = "set_staticIndices (?si[Suc k := ?si ! k, k := ?si ! Suc k])
                 (set_staticChild (?sc[Suc k := ?sc ! k, k := ?sc ! Suc k]) n)"
    from Suc.prems True have s: "sortStaticChild ?n1 k = (n3, j)" by simp
    have k: "k < length (staticChild ?n1)" using Suc.prems(1) by simp
    from Suc.IH [OF k s] Suc.prems(1) show ?thesis by simp
  qed
qed

subsection \<open>The activation that calls itself for ever\<close>

lemma escaped_True [simp]: "\<not> escaped pth True"
  by (simp add: escaped_def)

lemma set_path_same [simp]: "set_path (path n) n = n"
  by (cases n) simp

lemma spins_step:
  assumes "spins n pth"
  shows "\<exists>n3 ch'. addPathStep n pth wc True = Descend n3 (Static 0) ch' pth wc True
           \<and> spins ch' pth"
proof -
  from assms obtain ch where
    sc: "staticChild n = [ch]" and si: "staticIndices n = [hd pth]" and ne: "pth \<noteq> []"
    and sl: "hd pth \<noteq> CHR ''/''" and cp: "path ch \<noteq> []" and h: "hd (path ch) = hd pth"
    and np: "\<not> HasPrefix (firstSegment pth) (path ch)"
    and rl: "rangeLoop (path ch) (firstSegment pth) 0 0 = Inr 0"
    by (auto simp: spins_def)
  have tok: "litTok pth True = firstSegment pth" using sl by (simp add: litTok_def thisTok_def)
  have c1: "c1of pth True = hd pth" by (simp add: c1of_def)
  let ?new = "splitNode ch (firstSegment pth) 0"
  have sp: "splitCommonPrefix n 0 (firstSegment pth) = Inr (set_staticChild [?new] n, 0)"
    using sc np rl cp
    by (cases "path ch") (simp_all add: splitCommonPrefix_def Let_def splitNode_def)
  let ?ch' = "set_priority (priority ?new + 1) ?new"
  have b: "bump (set_staticChild [?new] n) 0 = set_staticChild [?ch'] n"
    by (cases n) (simp add: bump_def)
  have st: "addPathStep n pth wc True
            = Descend (set_staticChild [?ch'] n) (Static 0) ?ch' pth wc True"
    using ne sl si
    by (simp add: addPathStep_unfold tok c1 sp b splitOf_def)
  have "spins ?ch' pth"
    using ne sl cp h np rl by (simp add: spins_def splitNode_def)
  with st show ?thesis by blast
qed

lemma spins_diverges:
  assumes "spins n pth"
  shows "addPath n pth wc True = None"
proof (rule ccontr)
  assume "addPath n pth wc True \<noteq> None"
  then obtain r where r: "addPath n pth wc True = Some r" by auto
  from r have "\<not> (True \<and> spins n pth)"
  proof (induction rule: addPath_induct)
    case (Done n pth wc ist r)
    show ?case
    proof
      assume a: "ist \<and> spins n pth"
      with spins_step [of n pth wc] Done show False by auto
    qed
  next
    case (Descend n pth wc ist n1 st ch rest wc1 ist1 r1)
    show ?case
    proof
      assume a: "ist \<and> spins n pth"
      with spins_step [of n pth wc] Descend(1) have "ist1 \<and> spins ch rest" by auto
      with Descend(3) show False by simp
    qed
  qed
  with assms show False by simp
qed

subsection \<open>One activation keeps the invariant\<close>

lemma childrenOK_Nil [simp]: "childrenOK [] []"
  by (simp add: childrenOK_def)

lemma treeInv_catchAllNode [simp]:
  "treeInv (Node [] tok 0 [] [] None None False True None None)"
  by (simp add: childrenOK_def)

lemma addPathStep_Done_inv:
  assumes "treeInv n" "addPathStep n pth wc ist = Done (Inr (n', loc))"
  shows "treeInv n' \<and> path n' = path n"
proof (cases "pth = []")
  case True
  with assms show ?thesis
    by (auto simp: addPathStep_unfold addPathLeaf_def split: option.splits if_splits)
next
  case False
  with assms have st: "hd pth = CHR ''*''" "\<not> ist"
    and r: "addPathCatchAll n pth (tl (thisTok pth)) (IndexByte pth CHR ''/'') wc = Inr (n', loc)"
    by (auto simp: addPathStep_unfold split: if_splits option.splits sum.splits prod.splits)
  let ?ca = "case catchAllChild n of
               None \<Rightarrow> Node [] (tl (thisTok pth)) 0 [] [] None None False True None None
             | Some ca \<Rightarrow> ca"
  have ca: "treeInv ?ca"
    using treeInvD(4) [OF assms(1)] by (cases "catchAllChild n") simp_all
  from r have n': "n' = plug n CatchAll
      (set_leafWildcardNames (appendName wc (tl (thisTok pth))) ?ca)"
    by (auto simp: addPathCatchAll_def Let_def split: if_splits)
  have "treeInv (plug n CatchAll (set_leafWildcardNames (appendName wc (tl (thisTok pth))) ?ca))"
    by (rule treeInv_plug_CatchAll [OF assms(1)]) (simp add: ca)
  with n' show ?thesis by simp
qed

lemma firstIndex_hd:
  assumes "treeInv n" "firstIndex (staticIndices n) c = Some i"
  shows "i < length (staticChild n) \<and> staticIndices n ! i = c
         \<and> path (staticChild n ! i) \<noteq> [] \<and> hd (path (staticChild n ! i)) = c"
proof -
  note d = treeInvD(1) [OF assms(1)]
  from firstIndex_Some [OF assms(2)] childrenOK_length [OF d]
  have i: "i < length (staticChild n)" and c: "staticIndices n ! i = c" by simp_all
  with childrenOK_nth [OF d i] show ?thesis by simp
qed

lemma treeInv_bump:
  assumes "treeInv n" "i < length (staticChild n)"
  shows "treeInv (bump n i)"
proof -
  let ?ch = "staticChild n ! i"
  have "treeInv (plug n (Static i) (set_priority (priority ?ch + 1) ?ch))"
    by (rule treeInv_plug_Static [OF assms]) (simp_all add: treeInv_child [OF assms])
  then show ?thesis by (simp add: bump_def)
qed

lemma bump_sel [simp]:
  "path (bump n i) = path n" "length (staticChild (bump n i)) = length (staticChild n)"
  "staticIndices (bump n i) = staticIndices n"
  by (simp_all add: bump_def)

lemma treeInv_addChild:
  assumes "treeInv n" "firstIndex (staticIndices n) c = None" "okPath tok" "hd tok = c"
  shows "treeInv (addChild n c (newNode tok))"
    and "staticChild (addChild n c (newNode tok))
           ! (length (staticChild (addChild n c (newNode tok))) - 1) = newNode tok"
    and "length (staticChild (addChild n c (newNode tok))) - 1
           < length (staticChild (addChild n c (newNode tok)))"
    and "path (addChild n c (newNode tok)) = path n"
proof -
  note d = treeInvD [OF assms(1)]
  from assms(2) have notin: "c \<notin> set (staticIndices n)" by (simp add: firstIndex_None_iff)
  have len: "length (staticIndices n) = length (staticChild n)" by (rule childrenOK_length [OF d(1)])
  have eq: "addChild n c (newNode tok)
            = set_staticChild (staticChild n @ [newNode tok])
                (set_staticIndices (staticIndices n @ [c]) n)"
    using len by (cases "staticIndices n = []") (simp_all add: addChild_def)
  let ?n = "set_staticChild (staticChild n @ [newNode tok])
              (set_staticIndices (staticIndices n @ [c]) n)"
  have "treeInv ?n"
  proof (rule treeInvI)
    show "childrenOK (staticIndices ?n) (staticChild ?n)"
      using d(1) notin assms(3,4) by (simp add: childrenOK_def)
    show "list_all treeInv (staticChild ?n)" using d(2) by simp
    show "\<And>w. wildcardChild ?n = Some w \<Longrightarrow> treeInv w" by (rule d(3)) simp
    show "\<And>c. catchAllChild ?n = Some c \<Longrightarrow> treeInv c" by (rule d(4)) simp
  qed
  then show "treeInv (addChild n c (newNode tok))" by (simp add: eq)
  show "staticChild (addChild n c (newNode tok))
           ! (length (staticChild (addChild n c (newNode tok))) - 1) = newNode tok"
    by (simp add: eq)
  show "length (staticChild (addChild n c (newNode tok))) - 1
           < length (staticChild (addChild n c (newNode tok)))"
    by (simp add: eq)
  show "path (addChild n c (newNode tok)) = path n" by (simp add: eq)
qed

lemma byte_markers:
  "byte CHR ''*'' = 42" "byte CHR '':'' = 58" "byte backslash = 92" "byte CHR ''/'' = 47"
  by (simp_all add: byte_def backslash_def)

lemma escaped_c1of:
  "escaped pth ist \<Longrightarrow> c1of pth ist = CHR ''*'' \<or> c1of pth ist = CHR '':'' \<or> c1of pth ist = backslash"
  by (auto simp: escaped_def c1of_def)

lemma zero_split_spins:
  assumes inv: "treeInv n" and ne: "pth \<noteq> []"
    and Some: "firstIndex (staticIndices n) (c1of pth ist) = Some i"
    and sp: "splitCommonPrefix n i (litTok pth ist) = Inr (n1', k)"
    and so: "sortStaticChild (bump n1' i) i = (n3, j)"
    and False: "\<not> (1 \<le> k \<or> HasPrefix (litTok pth ist) (path (staticChild n ! i)))"
  shows "c1of pth ist \<noteq> CHR ''/'' \<and> spins (staticChild n3 ! j) (drop (splitOf pth ist k) pth)
         \<and> path n3 = path n"
proof -
  let ?c = "c1of pth ist" and ?tok = "litTok pth ist"
  have tokne: "?tok \<noteq> []" by (rule litTok_nonempty [OF ne])
  have hdtok: "hd ?tok = ?c" by (simp add: c1of_eq [OF ne])
  note fi = firstIndex_hd [OF inv Some]
  from False have k0: "k = 0" and np: "\<not> HasPrefix ?tok (path (staticChild n ! i))" by simp_all
  let ?old = "staticChild n ! i"
  from sp np have rl: "rangeLoop (path ?old) ?tok 0 0 = Inr k"
    and n1': "n1' = set_staticChild ((staticChild n)[i := splitNode ?old ?tok k]) n"
    by (auto elim: splitCommonPrefix_cases)
  have il: "i < length (staticChild n)" using fi by simp
  have big: "0xC2 \<le> byte ?c"
    using runeExtra_byte [OF rangeLoop_zero [OF rl [unfolded k0] _ tokne _ np]] fi hdtok
    by simp
  then have notesc: "\<not> escaped pth ist"
    using escaped_c1of [of pth ist] by (auto simp: byte_markers)
  from big have nsl: "?c \<noteq> CHR ''/''" by (auto simp: byte_markers)
  from notesc have c: "?c = hd pth" by (simp add: c1of_def)
  from notesc nsl c have tok: "?tok = firstSegment pth"
    by (simp add: litTok_def thisTok_def)
  from notesc k0 have r: "drop (splitOf pth ist k) pth = pth" by (simp add: splitOf_def)
  have lb: "i < length (staticChild (bump n1' i))" using il n1' by simp
  from sortStaticChild_child [OF lb so]
  have "staticChild n3 ! j = staticChild (bump n1' i) ! i" and p3: "path n3 = path (bump n1' i)"
    by simp_all
  with n1' il have ch': "staticChild n3 ! j = set_priority (priority (splitNode ?old ?tok 0) + 1)
                                  (splitNode ?old ?tok 0)"
    by (simp add: bump_def k0)
  have "spins (staticChild n3 ! j) pth"
    using ne nsl c fi tok np rl k0 by (simp add: spins_def ch' splitNode_def)
  with r nsl p3 n1' show ?thesis by simp
qed

lemma addPathStep_Descend_inv:
  assumes inv: "treeInv n"
    and st: "addPathStep n pth wc ist = Descend n1 s ch rest wc1 ist1"
  shows "path n1 = path n
         \<and> ((treeInv n1 \<and> treeInv ch
              \<and> (s = Wildcard \<or> (\<exists>j. s = Static j \<and> j < length (staticChild n1)
                                      \<and> staticChild n1 ! j = ch)))
             \<or> (ist1 \<and> spins ch rest))"
proof -
  from st have ne: "pth \<noteq> []" by (auto simp: addPathStep_unfold)
  from st ne have nostar: "\<not> (hd pth = CHR ''*'' \<and> \<not> ist)"
    by (auto simp: addPathStep_unfold split: if_splits)
  show ?thesis
  proof (cases "hd pth = CHR '':'' \<and> \<not> ist")
    case True
    let ?w = "case wildcardChild n of None \<Rightarrow> newNode ''wildcard'' | Some w \<Rightarrow> w"
    from st ne nostar True have n1: "n1 = plug n Wildcard ?w" and s: "s = Wildcard" and ch: "ch = ?w"
      by (auto simp: addPathStep_unfold)
    have w: "treeInv ?w" using treeInvD(3) [OF inv] by (cases "wildcardChild n") simp_all
    from treeInv_plug_Wildcard [OF inv w] n1 s ch w show ?thesis by simp
  next
    case nocolon: False
    let ?c = "c1of pth ist" and ?tok = "litTok pth ist"
    have tokne: "?tok \<noteq> []" by (rule litTok_nonempty [OF ne])
    have tokok: "okPath ?tok" by (rule litTok_ok [OF ne])
    have hdtok: "hd ?tok = ?c" by (simp add: c1of_eq [OF ne])
    show ?thesis
    proof (cases "firstIndex (staticIndices n) ?c")
      case None
      from st ne nostar nocolon None
      have n1: "n1 = addChild n ?c (newNode ?tok)"
        and s: "s = Static (length (staticChild (addChild n ?c (newNode ?tok))) - 1)"
        and ch: "ch = newNode ?tok"
        by (auto simp: addPathStep_unfold)
      note a = treeInv_addChild [OF inv None tokok hdtok]
      from a n1 s ch show ?thesis by simp
    next
      case (Some i)
      note fi = firstIndex_hd [OF inv Some]
      from st ne nostar nocolon Some obtain n1' k where
        sp: "splitCommonPrefix n i ?tok = Inr (n1', k)"
        by (auto simp: addPathStep_unfold split: sum.splits)
      obtain n3 j where so: "sortStaticChild (bump n1' i) i = (n3, j)"
        by (cases "sortStaticChild (bump n1' i) i") auto
      from st ne nostar nocolon Some sp so
      have n1: "n1 = n3" and s: "s = Static j" and ch: "ch = staticChild n3 ! j"
        and rest: "rest = drop (splitOf pth ist k) pth" and ist1: "ist1 = (?c \<noteq> CHR ''/'')"
        by (auto simp: addPathStep_unfold split: if_splits)
      show ?thesis
      proof (cases "1 \<le> k \<or> HasPrefix ?tok (path (staticChild n ! i))")
        case True
        from splitCommonPrefix_treeInv [OF inv sp tokok _ True] hdtok fi
        have i1: "treeInv n1'" and p1: "path n1' = path n" and l1: "i < length (staticChild n1')"
          by simp_all
        have ib: "treeInv (bump n1' i)" by (rule treeInv_bump [OF i1 l1])
        have lb: "i < length (staticChild (bump n1' i))" using l1 by simp
        from sortStaticChild_props [OF ib lb so] p1 l1
        have "treeInv n3" "path n3 = path n" "j < length (staticChild n3)"
          by simp_all
        with n1 s ch treeInv_child [of n3 j] show ?thesis by simp
      next
        case False
        from zero_split_spins [OF inv ne Some sp so False] n1 ch rest ist1 show ?thesis by simp
      qed
    qed
  qed
qed

theorem addPath_treeInv_aux:
  assumes "addPath n pth wc ist = Some r"
  shows "treeInv n \<longrightarrow> (\<forall>n' loc. r = Inr (n', loc) \<longrightarrow> treeInv n' \<and> path n' = path n)"
  using assms
proof (induction rule: addPath_induct)
  case (Done n pth wc ist r)
  then show ?case using addPathStep_Done_inv by blast
next
  case (Descend n pth wc ist n1 s ch rest wc1 ist1 r1)
  show ?case
  proof (intro impI allI)
    fix n' loc
    assume inv: "treeInv n" and l: "lift n1 s r1 = Inr (n', loc)"
    from l obtain ch' l' where r1: "r1 = Inr (ch', l')" and n': "n' = plug n1 s ch'"
      by (auto simp: lift_def split: sum.splits)
    note si = addPathStep_Descend_inv [OF inv Descend(1)]
    have nospin: "\<not> (ist1 \<and> spins ch rest)"
      using spins_diverges [of ch rest wc1] Descend(2) by auto
    with si have i1: "treeInv n1" and ic: "treeInv ch"
      and pl: "s = Wildcard \<or> (\<exists>j. s = Static j \<and> j < length (staticChild n1)
                                      \<and> staticChild n1 ! j = ch)"
      and p1: "path n1 = path n"
      by auto
    from Descend(3) ic r1 have ic': "treeInv ch'" and pc: "path ch' = path ch" by simp_all
    from pl have "treeInv (plug n1 s ch')"
    proof
      assume "s = Wildcard"
      with treeInv_plug_Wildcard [OF i1 ic'] show ?thesis by simp
    next
      assume "\<exists>j. s = Static j \<and> j < length (staticChild n1) \<and> staticChild n1 ! j = ch"
      then obtain j where "s = Static j" "j < length (staticChild n1)" "staticChild n1 ! j = ch"
        by auto
      with treeInv_plug_Static [OF i1 _ ic', of j] pc show ?thesis by simp
    qed
    with n' p1 show "treeInv n' \<and> path n' = path n" by simp
  qed
qed

lemma addPath_treeInv:
  "addPath n pth wc ist = Some (Inr (n', loc)) \<Longrightarrow> treeInv n \<Longrightarrow> treeInv n' \<and> path n' = path n"
  using addPath_treeInv_aux by blast

subsection \<open>Registration keeps the invariant\<close>

lemma setHandler_shape:
  "setHandler n verb handler implicit = Inr n1 \<Longrightarrow> \<exists>hm. n1 = set_handlerMap (Some hm) n"
  by (auto simp: setHandler_def Let_def split: if_splits)

lemma addOneLeaf_shape:
  assumes "addOneLeaf hc method handler slash fullPath nd = Inr nd1"
  shows "\<exists>r a hm. nd1 = set_handlerMap (Some hm) (set_addSlash a (set_route r nd))"
proof -
  let ?nd1 = "if route nd = [] then set_route fullPath nd else nd"
  let ?nd2 = "if slash then set_addSlash True ?nd1 else ?nd1"
  have nd2: "\<exists>r a. ?nd2 = set_addSlash a (set_route r nd)"
    by (cases nd) (auto intro: exI [of _ "route nd"] exI [of _ "addSlash nd"])
  then obtain r a where r: "?nd2 = set_addSlash a (set_route r nd)" by blast
  from assms obtain nd3 where 3: "setHandler ?nd2 method handler False = Inr nd3"
    by (auto simp: addOneLeaf_def Let_def split: if_splits sum.splits)
  then obtain hm where h3: "nd3 = set_handlerMap (Some hm) ?nd2"
    using setHandler_shape by blast
  from assms 3 have "nd1 = nd3 \<or> setHandler nd3 MethodHead handler True = Inr nd1"
    by (auto simp: addOneLeaf_def Let_def split: if_splits sum.splits option.splits)
  then show ?thesis
  proof
    assume "nd1 = nd3"
    with h3 r show ?thesis by metis
  next
    assume "setHandler nd3 MethodHead handler True = Inr nd1"
    then obtain hm1 where "nd1 = set_handlerMap (Some hm1) nd3" using setHandler_shape by blast
    with h3 r have "nd1 = set_handlerMap (Some hm1) (set_addSlash a (set_route r nd))"
      by (cases nd) simp
    then show ?thesis by blast
  qed
qed

lemma shallow_addOneLeaf: "shallow (addOneLeaf hc method handler slash fullPath)"
  unfolding shallow_def
proof (intro allI impI)
  fix n n1
  assume "addOneLeaf hc method handler slash fullPath n = Inr n1"
  from addOneLeaf_shape [OF this] obtain r a hm where
    "n1 = set_handlerMap (Some hm) (set_addSlash a (set_route r n))" by blast
  then show "path n1 = path n \<and> staticIndices n1 = staticIndices n \<and> staticChild n1 = staticChild n
        \<and> wildcardChild n1 = wildcardChild n \<and> catchAllChild n1 = catchAllChild n
        \<and> priority n1 = priority n \<and> leafWildcardNames n1 = leafWildcardNames n
        \<and> isCatchAll n1 = isCatchAll n"
    by (cases n) simp
qed

lemma shallowD:
  assumes "shallow f" "f n = Inr n1"
  shows "path n1 = path n" "staticIndices n1 = staticIndices n" "staticChild n1 = staticChild n"
    "wildcardChild n1 = wildcardChild n" "catchAllChild n1 = catchAllChild n"
    "priority n1 = priority n" "leafWildcardNames n1 = leafWildcardNames n"
    "isCatchAll n1 = isCatchAll n"
  using assms unfolding shallow_def by blast+

lemma shallow_treeInv:
  assumes "shallow f" "f n = Inr n1" "treeInv n"
  shows "treeInv n1"
proof (rule treeInvI)
  note s = shallowD [OF assms(1,2)] and d = treeInvD [OF assms(3)]
  show "childrenOK (staticIndices n1) (staticChild n1)" using d(1) s by simp
  show "list_all treeInv (staticChild n1)" using d(2) s by simp
  show "\<And>w. wildcardChild n1 = Some w \<Longrightarrow> treeInv w" by (rule d(3)) (simp add: s)
  show "\<And>c. catchAllChild n1 = Some c \<Longrightarrow> treeInv c" by (rule d(4)) (simp add: s)
qed

lemma modifyAt_treeInv:
  assumes "shallow f"
  shows "modifyAt f loc n = Inr n1 \<Longrightarrow> treeInv n \<Longrightarrow> treeInv n1 \<and> path n1 = path n"
proof (induction loc arbitrary: n n1)
  case Nil
  then have f: "f n = Inr n1" by simp
  from shallow_treeInv [OF assms f Nil(2)] shallowD(1) [OF assms f] show ?case by simp
next
  case (Cons s loc)
  show ?case
  proof (cases s)
    case (Static i)
    with Cons.prems obtain ch where i: "i < length (staticChild n)"
      and m: "modifyAt f loc (staticChild n ! i) = Inr ch"
      and n1: "n1 = plug n (Static i) ch"
      by (auto split: if_splits sum.splits)
    from Cons.IH [OF m treeInv_child [OF Cons.prems(2) i]]
    have "treeInv ch" "path ch = path (staticChild n ! i)" by simp_all
    from treeInv_plug_Static [OF Cons.prems(2) i this] n1 show ?thesis by simp
  next
    case Wildcard
    with Cons.prems obtain w ch where w: "wildcardChild n = Some w"
      and m: "modifyAt f loc w = Inr ch" and n1: "n1 = plug n Wildcard ch"
      by (auto split: option.splits sum.splits)
    from Cons.IH [OF m treeInvD(3) [OF Cons.prems(2) w]] have "treeInv ch" by simp
    from treeInv_plug_Wildcard [OF Cons.prems(2) this] n1 show ?thesis by simp
  next
    case CatchAll
    with Cons.prems obtain c ch where c: "catchAllChild n = Some c"
      and m: "modifyAt f loc c = Inr ch" and n1: "n1 = plug n CatchAll ch"
      by (auto split: option.splits sum.splits)
    from Cons.IH [OF m treeInvD(4) [OF Cons.prems(2) c]] have "treeInv ch" by simp
    from treeInv_plug_CatchAll [OF Cons.prems(2) this] n1 show ?thesis by simp
  qed
qed

lemma addOne_cases:
  assumes "addOne mux method handler slash fullPath = Some (Inr mux1)"
  obtains root1 leaf root2 where "fullPath \<noteq> []"
    and "addPath (root mux) (tl fullPath) None False = Some (Inr (root1, leaf))"
    and "modifyAt (addOneLeaf (HeadCanUseGet mux) method handler slash fullPath) leaf root1
           = Inr root2"
    and "mux1 = mux\<lparr>root := root2\<rparr>"
  using assms
  by (auto simp: addOne_def split: if_splits sum.splits prod.splits Option.bind_splits)

lemma addOne_treeInv:
  assumes "addOne mux method handler slash fullPath = Some (Inr mux1)" "treeInv (root mux)"
  shows "treeInv (root mux1)"
  using assms(1)
proof (cases rule: addOne_cases)
  case (1 root1 leaf root2)
  from addPath_treeInv [OF 1(2) assms(2)] have "treeInv root1" by simp
  from modifyAt_treeInv [OF shallow_addOneLeaf 1(3) this] 1(4) show ?thesis by simp
qed

lemma addOne_flags:
  assumes "addOne mux method handler slash fullPath = Some (Inr mux1)"
  shows "HeadCanUseGet mux1 = HeadCanUseGet mux \<and> RedirectTrailingSlash mux1 = RedirectTrailingSlash mux
         \<and> EscapeAddedRoutes mux1 = EscapeAddedRoutes mux"
  using assms by (cases rule: addOne_cases) simp

lemma Handle_cases:
  assumes "Handle requestURI mux g method pth handler0 = Some (Inr mux1)"
  obtains (direct)
      "addOne mux method (storedHandler g handler0) (storedSlash mux g pth) (storedPath mux g pth)
         = Some (Inr mux1)"
  | (escaped) us mux0 where "EscapeAddedRoutes mux" "requestURI (storedPath mux g pth) = Some us"
      "addOne mux method (storedHandler g handler0) (storedSlash mux g pth) (unescapeSpecial us)
         = Some (Inr mux0)"
      "addOne mux0 method (storedHandler g handler0) (storedSlash mux g pth) (storedPath mux g pth)
         = Some (Inr mux1)"
  using assms
  unfolding Handle_def storedPath_def storedSlash_def storedHandler_def Let_def
  by (auto split: if_splits option.splits sum.splits Option.bind_splits)

lemma Handle_treeInv:
  assumes "Handle requestURI mux g method pth handler0 = Some (Inr mux1)" "treeInv (root mux)"
  shows "treeInv (root mux1)"
  using assms(1)
proof (cases rule: Handle_cases)
  case direct
  from addOne_treeInv [OF this assms(2)] show ?thesis .
next
  case (escaped us mux0)
  from addOne_treeInv [OF escaped(4) addOne_treeInv [OF escaped(3) assms(2)]] show ?thesis .
qed

lemma built_treeInv:
  assumes "built requestURI mux0 mux" "treeInv (root mux0)"
  shows "treeInv (root mux)"
  using assms by (induction rule: built.induct) (auto intro: Handle_treeInv)

lemma treeInv_emptyMux: "treeInv (root (emptyMux hc rts ear))"
  by (simp add: emptyMux_def)

section \<open>Numeric parameters\<close>

lemma foldl_decStep_ge: "a \<le> foldl (\<lambda>a c. 10 * a + digitVal c) a cs"
proof (induction cs arbitrary: a)
  case Nil then show ?case by simp
next
  case (Cons c cs)
  have "a \<le> 10 * a + digitVal c" by simp
  also have "\<dots> \<le> foldl (\<lambda>a c. 10 * a + digitVal c) (10 * a + digitVal c) cs" by (rule Cons.IH)
  finally show ?case by simp
qed

lemma digitVal_le: "isDigit c \<Longrightarrow> digitVal c \<le> 9"
  unfolding isDigit_def between_def digitVal_def byte_def by (simp, arith)

lemma unat_cutoff: "unat cutoff = 1844674407370955162"
  by (simp add: cutoff_def)

lemma parse_step_unat:
  fixes n :: "64 word"
  assumes "10 * unat n + d < 2 ^ 64"
  shows "n < cutoff" and "unat (n * 10 + word_of_nat d) = 10 * unat n + d"
    and "\<not> (n * 10 + word_of_nat d < n * 10)"
proof -
  from assms have "unat n < 1844674407370955162" by simp
  then show "n < cutoff" by (simp add: word_less_nat_alt unat_cutoff)
  have m: "unat (n * 10) = 10 * unat n"
    using assms by (simp add: unat_word_ariths mult.commute)
  have d: "unat (word_of_nat d :: 64 word) = d"
    using assms by (simp add: unat_of_nat)
  show s: "unat (n * 10 + word_of_nat d) = 10 * unat n + d"
    using assms m d by (simp add: unat_word_ariths)
  show "\<not> (n * 10 + word_of_nat d < n * 10)"
    using s m by (simp add: word_less_nat_alt)
qed

lemma parse_step_wrap:
  fixes n :: "64 word"
  assumes "n < cutoff" "d \<le> 9" "\<not> 10 * unat n + d < 2 ^ 64"
  shows "n * 10 + word_of_nat d < n * 10"
proof -
  from assms(1) have b: "unat n < 1844674407370955162" by (simp add: word_less_nat_alt unat_cutoff)
  have m: "unat (n * 10) = 10 * unat n"
    using b by (simp add: unat_word_ariths mult.commute)
  have d: "unat (word_of_nat d :: 64 word) = d"
    using assms(2) by (simp add: unat_of_nat)
  have "unat (n * 10 + word_of_nat d) = (10 * unat n + d) mod 2 ^ 64"
    using m d by (simp add: unat_word_ariths)
  also have "\<dots> = 10 * unat n + d - 2 ^ 64"
    using assms(2,3) b by (simp add: mod_if)
  also have "\<dots> < 10 * unat n" using assms(2,3) by simp
  finally show ?thesis using m by (simp add: word_less_nat_alt)
qed

lemma parseUintLoop_value:
  "list_all isDigit cs \<Longrightarrow> foldl (\<lambda>a c. 10 * a + digitVal c) (unat n) cs < 2 ^ 64 \<Longrightarrow>
   parseUintLoop cs n = Inr (word_of_nat (foldl (\<lambda>a c. 10 * a + digitVal c) (unat n) cs))"
proof (induction cs arbitrary: n)
  case Nil then show ?case by simp
next
  case (Cons c cs)
  let ?d = "digitVal c"
  have "10 * unat n + ?d \<le> foldl (\<lambda>a c. 10 * a + digitVal c) (10 * unat n + ?d) cs"
    by (rule foldl_decStep_ge)
  with Cons.prems(2) have lt: "10 * unat n + ?d < 2 ^ 64" by simp
  note st = parse_step_unat [OF lt]
  have "parseUintLoop cs (n * 10 + word_of_nat ?d)
        = Inr (word_of_nat (foldl (\<lambda>a c. 10 * a + digitVal c) (unat (n * 10 + word_of_nat ?d)) cs))"
    using Cons.prems by (intro Cons.IH) (simp_all add: st(2))
  then show ?case using Cons.prems(1) st by (simp add: Let_def not_le [symmetric])
qed

lemma parseUintLoop_range:
  "list_all isDigit cs \<Longrightarrow> \<not> foldl (\<lambda>a c. 10 * a + digitVal c) (unat n) cs < 2 ^ 64 \<Longrightarrow>
   parseUintLoop cs n = Inl ErrRange"
proof (induction cs arbitrary: n)
  case Nil
  have "unat n < 2 ^ 64" using unsigned_less [of n] by simp
  with Nil show ?case by simp
next
  case (Cons c cs)
  let ?d = "digitVal c"
  from Cons.prems(1) have dg: "isDigit c" and rest: "list_all isDigit cs" by simp_all
  show ?case
  proof (cases "n \<ge> cutoff")
    case True then show ?thesis using dg by simp
  next
    case False
    then have lt: "n < cutoff" by simp
    show ?thesis
    proof (cases "10 * unat n + ?d < 2 ^ 64")
      case True
      note st = parse_step_unat [OF True]
      have "parseUintLoop cs (n * 10 + word_of_nat ?d) = Inl ErrRange"
        using Cons.prems rest by (intro Cons.IH) (simp_all add: st(2))
      then show ?thesis using dg False st(3) by (simp add: Let_def)
    next
      case False
      have "n * 10 + word_of_nat ?d < n * 10"
        by (rule parse_step_wrap [OF lt digitVal_le [OF dg] False])
      then show ?thesis using dg lt by (simp add: Let_def not_le [symmetric])
    qed
  qed
qed

lemma parseUintLoop_nondigit:
  "\<not> list_all isDigit cs \<Longrightarrow> \<exists>e. parseUintLoop cs n = Inl e"
  by (induction cs arbitrary: n) (auto simp: Let_def)

lemma Params_Get_absent: "snd (Params_Get ps name) = False \<Longrightarrow> fst (Params_Get ps name) = []"
  by (induction ps) (auto split: if_splits)

text \<open>
  Claim C10. For every parameter list and every name, \<^verbatim>\<open>Params.Uint32\<close> succeeds on a value
  that is a decimal string representable in 64 bits and returns that number modulo \<open>2^32\<close>,
  so that a number above \<open>2^32 - 1\<close> is cut down and not rejected; an absent value gives the
  syntax error, and a value that is not a decimal string gives an error.
\<close>

theorem Uint32_truncates_mod_2_32:
  "(isDecimal (Text ps name) \<and> decimalValue (Text ps name) < 2 ^ 64 \<longrightarrow>
      (\<exists>w. Uint32 ps name = Inr w \<and> unat w = decimalValue (Text ps name) mod 2 ^ 32))
   \<and> (\<not> snd (Params_Get ps name) \<longrightarrow> Uint32 ps name = Inl ErrSyntax)
   \<and> (\<not> isDecimal (Text ps name) \<longrightarrow> (\<exists>e. Uint32 ps name = Inl e))"
proof (intro conjI impI)
  assume a: "isDecimal (Text ps name) \<and> decimalValue (Text ps name) < 2 ^ 64"
  let ?s = "Text ps name"
  from a have "parseUintLoop ?s 0 = Inr (word_of_nat (decimalValue ?s))"
    using parseUintLoop_value [of ?s 0] by (simp add: isDecimal_def decimalValue_def)
  with a have "Uint32 ps name = Inr (ucast (word_of_nat (decimalValue ?s) :: 64 word))"
    by (simp add: Uint32_def ParseUint_def isDecimal_def)
  moreover have "unat (ucast (word_of_nat (decimalValue ?s) :: 64 word) :: 32 word)
                 = decimalValue ?s mod 2 ^ 32"
    using a by (simp add: unsigned_ucast_eq take_bit_eq_mod unat_of_nat)
  ultimately show "\<exists>w. Uint32 ps name = Inr w \<and> unat w = decimalValue ?s mod 2 ^ 32" by simp
next
  assume "\<not> snd (Params_Get ps name)"
  then have "Text ps name = []" using Params_Get_absent [of ps name] by (simp add: Text_def)
  then show "Uint32 ps name = Inl ErrSyntax" by (simp add: Uint32_def ParseUint_def)
next
  assume n: "\<not> isDecimal (Text ps name)"
  show "\<exists>e. Uint32 ps name = Inl e"
  proof (cases "Text ps name = []")
    case True then show ?thesis by (simp add: Uint32_def ParseUint_def)
  next
    case False
    with n have "\<not> list_all isDigit (Text ps name)" by (simp add: isDecimal_def)
    from parseUintLoop_nondigit [OF this, of 0] False show ?thesis
      by (auto simp: Uint32_def ParseUint_def)
  qed
qed

theorem Uint32_truncates_mod_2_32_witness:
  "isDecimal (Text [\<lparr>Name = ''id'', Value = ''4294967297''\<rparr>] ''id'')
   \<and> decimalValue (Text [\<lparr>Name = ''id'', Value = ''4294967297''\<rparr>] ''id'') < 2 ^ 64
   \<and> (\<exists>w. Uint32 [\<lparr>Name = ''id'', Value = ''4294967297''\<rparr>] ''id'' = Inr w \<and> unat w = 1)
   \<and> \<not> snd (Params_Get [\<lparr>Name = ''id'', Value = ''4294967297''\<rparr>] ''page'')
   \<and> Uint32 [\<lparr>Name = ''id'', Value = ''4294967297''\<rparr>] ''page'' = Inl ErrSyntax
   \<and> \<not> isDecimal (Text [\<lparr>Name = ''id'', Value = ''12a''\<rparr>] ''id'')
   \<and> (\<exists>e. Uint32 [\<lparr>Name = ''id'', Value = ''12a''\<rparr>] ''id'' = Inl e)"
  using Uint32_truncates_mod_2_32 [of "[\<lparr>Name = ''id'', Value = ''4294967297''\<rparr>]" "''id''"]
    Uint32_truncates_mod_2_32 [of "[\<lparr>Name = ''id'', Value = ''4294967297''\<rparr>]" "''page''"]
    Uint32_truncates_mod_2_32 [of "[\<lparr>Name = ''id'', Value = ''12a''\<rparr>]" "''id''"]
  by (simp add: Text_def isDecimal_def decimalValue_def isDigit_def between_def byte_def
        digitVal_def)

section \<open>Catch-all insertion\<close>

text \<open>
  Claim C7. Insertion of a catch-all fails with an error in both of these cases: a catch-all
  with a different parameter name is already stored at the node, or a \<^verbatim>\<open>/\<close> follows the
  catch-all token in the pattern. In neither case does \<^verbatim>\<open>addPath\<close> return a leaf.
\<close>

theorem addPath_catchAll_conflicts:
  assumes "(\<exists>ca. catchAllChild n = Some ca \<and> path ca \<noteq> takeWhile (\<lambda>x. x \<noteq> CHR ''/'') rest)
           \<or> CHR ''/'' \<in> set rest"
  shows "\<exists>e. addPath n (CHR ''*'' # rest) wildcards False = Some (Inl e)
             \<and> (e = ErrSlashAfterCatchAll (CHR ''*'' # rest)
                  \<or> (\<exists>stored. e = ErrCatchAllName (CHR ''*'' # rest) stored))"
proof (cases "IndexByte rest CHR ''/''")
  case None
  then have ns: "CHR ''/'' \<notin> set rest" by (simp add: IndexByte_None_iff)
  then have tw: "takeWhile (\<lambda>x. x \<noteq> CHR ''/'') rest = rest"
    by (auto simp: takeWhile_eq_all_conv)
  from assms ns tw obtain ca where "catchAllChild n = Some ca" "path ca \<noteq> rest" by auto
  then show ?thesis using None
    by (subst addPath.simps) (simp add: addPathStep_def addPathCatchAll_def Let_def)
next
  case (Some k)
  then show ?thesis
    by (subst addPath.simps) (auto simp: addPathStep_def addPathCatchAll_def Let_def)
qed

theorem addPath_catchAll_conflicts_witness:
  "(\<exists>ca. catchAllChild (set_catchAllChild (Some (newNode ''a'')) (newNode [])) = Some ca
         \<and> path ca \<noteq> takeWhile (\<lambda>x. x \<noteq> CHR ''/'') ''b'')
   \<and> (\<exists>e. addPath (set_catchAllChild (Some (newNode ''a'')) (newNode [])) ''*b'' None False
             = Some (Inl e)
          \<and> (e = ErrSlashAfterCatchAll ''*b'' \<or> (\<exists>stored. e = ErrCatchAllName ''*b'' stored)))
   \<and> CHR ''/'' \<in> set ''a/b''
   \<and> (\<exists>e. addPath (newNode []) ''*a/b'' None False = Some (Inl e)
          \<and> (e = ErrSlashAfterCatchAll ''*a/b'' \<or> (\<exists>stored. e = ErrCatchAllName ''*a/b'' stored)))"
  using addPath_catchAll_conflicts
          [of "set_catchAllChild (Some (newNode ''a'')) (newNode [])" "''b''" None]
        addPath_catchAll_conflicts [of "newNode []" "''a/b''" None]
  by simp

section \<open>Order of the parameters\<close>

text \<open>
  Claim C1, as stated, fails: for the route \<^verbatim>\<open>/:year/:month\<close> and the path \<^verbatim>\<open>/2014/05\<close> the
  list that \<^verbatim>\<open>search\<close> returns starts with \<^verbatim>\<open>month\<close>, the parameter captured farthest from
  the root.
\<close>

theorem params_inner_first_counterexample:
  "matchAfter noRequestURI (emptyMux True True False)
     [(rootGroup, MethodGet, ''/:year/:month'', Some 1)] MethodGet ''/2014/05''
   = Some (Inr (True, Some 1, [\<lparr>Name = ''month'', Value = ''05''\<rparr>,
                                \<lparr>Name = ''year'', Value = ''2014''\<rparr>]))"
  by code_simp

text \<open>
  Claim C1, amended. For every match, the parameter list returned by \<^verbatim>\<open>search\<close> is ordered
  inner-to-outer: parameter \<open>i\<close> carries the name recorded in \<^verbatim>\<open>leafWildcardNames\<close> of the
  matched node at position \<open>i\<close> from the end, and a node that matches through its wildcard
  child appends the segment it captured after the parameters of the levels below it, so
  that the parameter captured nearest the root comes last.
\<close>

theorem params_inner_first:
  "(search n method pth = Inr (Some nd, h, params) \<longrightarrow>
      length params \<le> length (wildcardNames nd)
      \<and> map Name params = take (length params) (rev (wildcardNames nd)))
   \<and> (pth \<noteq> [] \<and> staticSearch n method pth = Inr (sf, None, sp) \<and> wildcardChild n = Some w
        \<and> firstSegment pth \<noteq> []
        \<and> search w method (afterSegment pth) = Inr (Some wn, Some h1, wps)
        \<and> paramName wn (length wps) = Inr name \<longrightarrow>
      search n method pth
      = Inr (Some wn, Some h1,
             wps @ [\<lparr>Name = name, Value = unescapeOrRaw (firstSegment pth)\<rparr>]))"
proof (rule conjI; rule impI)
  assume "search n method pth = Inr (Some nd, h, params)"
  from search_ok [OF this]
  show "length params \<le> length (wildcardNames nd)
        \<and> map Name params = take (length params) (rev (wildcardNames nd))"
    by (simp add: resOK_def)
next
  assume "pth \<noteq> [] \<and> staticSearch n method pth = Inr (sf, None, sp) \<and> wildcardChild n = Some w
        \<and> firstSegment pth \<noteq> []
        \<and> search w method (afterSegment pth) = Inr (Some wn, Some h1, wps)
        \<and> paramName wn (length wps) = Inr name"
  then show "search n method pth
      = Inr (Some wn, Some h1,
             wps @ [\<lparr>Name = name, Value = unescapeOrRaw (firstSegment pth)\<rparr>])"
    by (intro search_wildcard_step) auto
qed

theorem params_inner_first_witness:
  "search yearMonthRoot MethodGet ''2014/05''
   = Inr (Some yearMonthLeaf, Some 1,
          [\<lparr>Name = ''month'', Value = ''05''\<rparr>, \<lparr>Name = ''year'', Value = ''2014''\<rparr>])
   \<and> wildcardNames yearMonthLeaf = [''year'', ''month'']
   \<and> map Name [\<lparr>Name = ''month'', Value = ''05''\<rparr>, \<lparr>Name = ''year'', Value = ''2014''\<rparr>]
     = take 2 (rev (wildcardNames yearMonthLeaf))
   \<and> staticSearch yearMonthRoot MethodGet ''2014/05'' = Inr (None, None, [])
   \<and> wildcardChild yearMonthRoot = Some (the (wildcardChild yearMonthRoot))
   \<and> firstSegment ''2014/05'' = ''2014''
   \<and> search (the (wildcardChild yearMonthRoot)) MethodGet (afterSegment ''2014/05'')
     = Inr (Some yearMonthLeaf, Some 1, [\<lparr>Name = ''month'', Value = ''05''\<rparr>])
   \<and> paramName yearMonthLeaf (length [\<lparr>Name = ''month'', Value = ''05''\<rparr>]) = Inr ''year''
   \<and> unescapeOrRaw (firstSegment ''2014/05'') = ''2014''"
proof -
  have s: "staticSearch yearMonthRoot MethodGet ''2014/05'' = Inr (None, None, [])"
    by code_simp
  have w: "wildcardChild yearMonthRoot = Some (the (wildcardChild yearMonthRoot))"
    by code_simp
  have f: "firstSegment ''2014/05'' = ''2014''" by code_simp
  have i: "search (the (wildcardChild yearMonthRoot)) MethodGet (afterSegment ''2014/05'')
           = Inr (Some yearMonthLeaf, Some 1, [\<lparr>Name = ''month'', Value = ''05''\<rparr>])"
    by code_simp
  have p: "paramName yearMonthLeaf (length [\<lparr>Name = ''month'', Value = ''05''\<rparr>]) = Inr ''year''"
    by code_simp
  have u: "unescapeOrRaw (firstSegment ''2014/05'') = ''2014''" by code_simp
  have nm: "wildcardNames yearMonthLeaf = [''year'', ''month'']" by code_simp
  note t = params_inner_first [of yearMonthRoot MethodGet "''2014/05''" yearMonthLeaf "Some 1"
      "[\<lparr>Name = ''month'', Value = ''05''\<rparr>, \<lparr>Name = ''year'', Value = ''2014''\<rparr>]"
      None "[]" "the (wildcardChild yearMonthRoot)" yearMonthLeaf 1
      "[\<lparr>Name = ''month'', Value = ''05''\<rparr>]" "''year''"]
  from t s w f i p have r: "search yearMonthRoot MethodGet ''2014/05''
     = Inr (Some yearMonthLeaf, Some 1,
          [\<lparr>Name = ''month'', Value = ''05''\<rparr>,
           \<lparr>Name = ''year'', Value = unescapeOrRaw (firstSegment ''2014/05'')\<rparr>])"
    by simp
  have "map Name [\<lparr>Name = ''month'', Value = ''05''\<rparr>, \<lparr>Name = ''year'', Value = ''2014''\<rparr>]
     = take 2 (rev (wildcardNames yearMonthLeaf))"
    by (simp add: nm)
  with r u s w f i p nm show ?thesis by simp
qed

section \<open>Static before wildcard\<close>

text \<open>
  Claim C2. With \<^verbatim>\<open>/:page\<close> (handler \<open>a\<close>) and \<^verbatim>\<open>/favicon.ico\<close> (handler \<open>b\<close>) registered for
  GET, in either order, the request \<^verbatim>\<open>/favicon.ico\<close> is matched with \<open>b\<close> and no parameter and
  the request \<^verbatim>\<open>/other\<close> with \<open>a\<close> and the parameter \<^verbatim>\<open>page=other\<close>; at every node, a handler
  found through a static child is returned before the wildcard child is looked at.
\<close>

theorem static_wins_over_wildcard:
  "(pth \<noteq> [] \<and> staticSearch n method pth = Inr (found, Some h, params) \<longrightarrow>
      search n method pth = Inr (found, Some h, params))
   \<and> matchAfter requestURI (emptyMux hc rts False)
        [(rootGroup, MethodGet, ''/:page'', Some a), (rootGroup, MethodGet, ''/favicon.ico'', Some b)]
        MethodGet ''/favicon.ico'' = Some (Inr (True, Some b, []))
   \<and> matchAfter requestURI (emptyMux hc rts False)
        [(rootGroup, MethodGet, ''/:page'', Some a), (rootGroup, MethodGet, ''/favicon.ico'', Some b)]
        MethodGet ''/other'' = Some (Inr (True, Some a, [\<lparr>Name = ''page'', Value = ''other''\<rparr>]))
   \<and> matchAfter requestURI (emptyMux hc rts False)
        [(rootGroup, MethodGet, ''/favicon.ico'', Some b), (rootGroup, MethodGet, ''/:page'', Some a)]
        MethodGet ''/favicon.ico'' = Some (Inr (True, Some b, []))
   \<and> matchAfter requestURI (emptyMux hc rts False)
        [(rootGroup, MethodGet, ''/favicon.ico'', Some b), (rootGroup, MethodGet, ''/:page'', Some a)]
        MethodGet ''/other'' = Some (Inr (True, Some a, [\<lparr>Name = ''page'', Value = ''other''\<rparr>]))"
proof (intro conjI)
  show "pth \<noteq> [] \<and> staticSearch n method pth = Inr (found, Some h, params) \<longrightarrow>
      search n method pth = Inr (found, Some h, params)"
    by (simp add: search_unfold)
qed (induct hc; induct rts; code_simp)+

theorem static_wins_over_wildcard_witness:
  "''favicon.ico'' \<noteq> []
   \<and> staticSearch pageFaviconRoot MethodGet ''favicon.ico''
     = Inr (Some (hd (staticChild pageFaviconRoot)), Some 2, [])
   \<and> wildcardChild pageFaviconRoot \<noteq> None
   \<and> search pageFaviconRoot MethodGet ''favicon.ico''
     = Inr (Some (hd (staticChild pageFaviconRoot)), Some 2, [])"
proof -
  have s: "staticSearch pageFaviconRoot MethodGet ''favicon.ico''
           = Inr (Some (hd (staticChild pageFaviconRoot)), Some 2, [])"
    by code_simp
  have w: "wildcardChild pageFaviconRoot \<noteq> None" by code_simp
  from static_wins_over_wildcard [of "''favicon.ico''" pageFaviconRoot MethodGet
      "Some (hd (staticChild pageFaviconRoot))" 2 "[]"] s w
  show ?thesis by simp
qed

section \<open>Percent-decoding of captured segments\<close>

text \<open>
  Claim C9. When the wildcard child, or the catch-all child, of a node yields the match, the
  match is returned whatever the percent-decoding of the captured text does: the value of the
  parameter is the decoded text when decoding succeeds and the raw captured text when it
  fails.
\<close>

theorem decode_failure_keeps_raw:
  "(pth \<noteq> [] \<and> staticSearch n method pth = Inr (sf, None, sp) \<and> wildcardChild n = Some w
      \<and> firstSegment pth \<noteq> []
      \<and> search w method (afterSegment pth) = Inr (Some wn, Some h, wps)
      \<and> paramName wn (length wps) = Inr name \<longrightarrow>
    (\<exists>v. search n method pth = Inr (Some wn, Some h, wps @ [\<lparr>Name = name, Value = v\<rparr>])
        \<and> (PathUnescape (firstSegment pth) = None \<longrightarrow> v = firstSegment pth)
        \<and> (\<forall>d. PathUnescape (firstSegment pth) = Some d \<longrightarrow> v = d)))
   \<and> (pth \<noteq> [] \<and> staticSearch n method pth = Inr (sf, None, sp)
      \<and> wildcardSearch n method pth sf None sp = Inr (Continue (f1, h1, p1))
      \<and> catchAllChild n = Some c \<and> handlerMap c = Some hm \<and> Get hm method = Some h
      \<and> paramName c 0 = Inr name \<longrightarrow>
    (\<exists>v. search n method pth = Inr (Some c, Some h, [\<lparr>Name = name, Value = v\<rparr>])
        \<and> (PathUnescape pth = None \<longrightarrow> v = pth)
        \<and> (\<forall>d. PathUnescape pth = Some d \<longrightarrow> v = d)))"
proof (rule conjI; rule impI)
  assume "pth \<noteq> [] \<and> staticSearch n method pth = Inr (sf, None, sp) \<and> wildcardChild n = Some w
      \<and> firstSegment pth \<noteq> []
      \<and> search w method (afterSegment pth) = Inr (Some wn, Some h, wps)
      \<and> paramName wn (length wps) = Inr name"
  then have "search n method pth
      = Inr (Some wn, Some h, wps @ [\<lparr>Name = name, Value = unescapeOrRaw (firstSegment pth)\<rparr>])"
    by (intro search_wildcard_step) auto
  then show "\<exists>v. search n method pth = Inr (Some wn, Some h, wps @ [\<lparr>Name = name, Value = v\<rparr>])
        \<and> (PathUnescape (firstSegment pth) = None \<longrightarrow> v = firstSegment pth)
        \<and> (\<forall>d. PathUnescape (firstSegment pth) = Some d \<longrightarrow> v = d)"
    by (auto simp: unescapeOrRaw_def)
next
  assume "pth \<noteq> [] \<and> staticSearch n method pth = Inr (sf, None, sp)
      \<and> wildcardSearch n method pth sf None sp = Inr (Continue (f1, h1, p1))
      \<and> catchAllChild n = Some c \<and> handlerMap c = Some hm \<and> Get hm method = Some h
      \<and> paramName c 0 = Inr name"
  then have "search n method pth = Inr (Some c, Some h, [\<lparr>Name = name, Value = unescapeOrRaw pth\<rparr>])"
    by (intro search_catchAll_step) auto
  then show "\<exists>v. search n method pth = Inr (Some c, Some h, [\<lparr>Name = name, Value = v\<rparr>])
        \<and> (PathUnescape pth = None \<longrightarrow> v = pth)
        \<and> (\<forall>d. PathUnescape pth = Some d \<longrightarrow> v = d)"
    by (auto simp: unescapeOrRaw_def)
qed

definition segmentCatchAllParent :: node where
  "segmentCatchAllParent = hd (staticChild (hd (staticChild segmentRoot)))"

theorem decode_failure_keeps_raw_witness:
  "staticSearch segmentRoot MethodGet ''x%2'' = Inr (None, None, [])
   \<and> wildcardChild segmentRoot = Some (the (wildcardChild segmentRoot))
   \<and> firstSegment ''x%2'' = ''x%2''
   \<and> search (the (wildcardChild segmentRoot)) MethodGet (afterSegment ''x%2'')
     = Inr (Some (the (wildcardChild segmentRoot)), Some 1, [])
   \<and> paramName (the (wildcardChild segmentRoot)) (length ([] :: Param list)) = Inr ''a''
   \<and> PathUnescape ''x%2'' = None
   \<and> search segmentRoot MethodGet ''x%2''
     = Inr (Some (the (wildcardChild segmentRoot)), Some 1, [\<lparr>Name = ''a'', Value = ''x%2''\<rparr>])
   \<and> PathUnescape ''x%41'' = Some ''xA''
   \<and> search segmentRoot MethodGet ''x%41''
     = Inr (Some (the (wildcardChild segmentRoot)), Some 1, [\<lparr>Name = ''a'', Value = ''xA''\<rparr>])
   \<and> staticSearch segmentCatchAllParent MethodGet ''a%zz/b'' = Inr (None, None, [])
   \<and> wildcardSearch segmentCatchAllParent MethodGet ''a%zz/b'' None None []
     = Inr (Continue (None, None, []))
   \<and> catchAllChild segmentCatchAllParent = Some (the (catchAllChild segmentCatchAllParent))
   \<and> Get (the (handlerMap (the (catchAllChild segmentCatchAllParent)))) MethodGet = Some 2
   \<and> paramName (the (catchAllChild segmentCatchAllParent)) 0 = Inr ''p''
   \<and> PathUnescape ''a%zz/b'' = None
   \<and> search segmentCatchAllParent MethodGet ''a%zz/b''
     = Inr (Some (the (catchAllChild segmentCatchAllParent)), Some 2,
            [\<lparr>Name = ''p'', Value = ''a%zz/b''\<rparr>])"
proof -
  let ?w = "the (wildcardChild segmentRoot)"
  let ?n = segmentCatchAllParent
  let ?c = "the (catchAllChild segmentCatchAllParent)"
  have s: "staticSearch segmentRoot MethodGet ''x%2'' = Inr (None, None, [])" by code_simp
  have w: "wildcardChild segmentRoot = Some ?w" by code_simp
  have f: "firstSegment ''x%2'' = ''x%2''" by code_simp
  have i: "search ?w MethodGet (afterSegment ''x%2'') = Inr (Some ?w, Some 1, [])" by code_simp
  have p: "paramName ?w (length ([] :: Param list)) = Inr ''a''" by code_simp
  have u: "PathUnescape ''x%2'' = None" by code_simp
  have u2: "PathUnescape ''x%41'' = Some ''xA''" by code_simp
  have r2: "search segmentRoot MethodGet ''x%41''
     = Inr (Some ?w, Some 1, [\<lparr>Name = ''a'', Value = ''xA''\<rparr>])" by code_simp
  have cs: "staticSearch ?n MethodGet ''a%zz/b'' = Inr (None, None, [])" by code_simp
  have cw: "wildcardSearch ?n MethodGet ''a%zz/b'' None None [] = Inr (Continue (None, None, []))"
    by code_simp
  have cc: "catchAllChild ?n = Some ?c" by code_simp
  have ch: "handlerMap ?c = Some (the (handlerMap ?c))" by code_simp
  have cg: "Get (the (handlerMap ?c)) MethodGet = Some 2" by code_simp
  have cp: "paramName ?c 0 = Inr ''p''" by code_simp
  have cu: "PathUnescape ''a%zz/b'' = None" by code_simp
  from decode_failure_keeps_raw [of "''x%2''" segmentRoot MethodGet None "[]" ?w ?w 1 "[]" "''a''"]
    s w f i p u
  have r1: "search segmentRoot MethodGet ''x%2''
     = Inr (Some ?w, Some 1, [\<lparr>Name = ''a'', Value = ''x%2''\<rparr>])"
    by auto
  from decode_failure_keeps_raw [of "''a%zz/b''" ?n MethodGet None "[]" _ _ 2 _ "''p''"
      None None "[]" ?c "the (handlerMap ?c)"]
    cs cw cc ch cg cp cu
  have r3: "search ?n MethodGet ''a%zz/b''
     = Inr (Some ?c, Some 2, [\<lparr>Name = ''p'', Value = ''a%zz/b''\<rparr>])"
    by auto
  from s w f i p u u2 r1 r2 cs cw cc cg cp cu r3 show ?thesis by simp
qed

section \<open>Distinct leading bytes, and what a split keeps\<close>

text \<open>
  The first half of claim C8 holds of every registration that returns: \<open>built_treeInv\<close>
  above says that in every router reached from the empty one, at every node, the static
  children have pairwise distinct leading bytes, listed in \<^verbatim>\<open>staticIndices\<close>.
\<close>

lemma Handle_pathEacute:
  "Handle noRequestURI (emptyMux False True False) rootGroup MethodGet pathEacute (Some 1)
   = Some (Inr eacuteMux)"
  by code_simp

lemma addPathStep_pathEgrave:
  "stepSpins (addPathStep (root eacuteMux) (tl pathEgrave) None False) (tl pathEgrave)"
  by code_simp

lemma addPath_pathEgrave: "addPath (root eacuteMux) (tl pathEgrave) None False = None"
proof -
  from addPathStep_pathEgrave obtain n1 st ch wc where
    a: "addPathStep (root eacuteMux) (tl pathEgrave) None False
        = Descend n1 st ch (tl pathEgrave) wc True"
    and b: "spins ch (tl pathEgrave)"
    by (auto simp: stepSpins_def spins_def split: addStep.splits list.splits)
  from spins_diverges [OF b] have "addPath ch (tl pathEgrave) wc True = None" .
  with a show ?thesis by (subst addPath.simps) simp
qed

lemma Handle_pathEgrave:
  "Handle noRequestURI eacuteMux rootGroup MethodGet pathEgrave (Some 2) = None"
proof -
  have f: "EscapeAddedRoutes eacuteMux = False" "RedirectTrailingSlash eacuteMux = True"
    by code_simp+
  show ?thesis
    unfolding Handle_def Let_def addOne_def
    by (simp add: f addPath_pathEgrave rootGroup_def) (simp add: pathEgrave_def)
qed

lemma HandleAll_pathEgrave:
  "HandleAll noRequestURI (emptyMux False True False)
     [(rootGroup, MethodGet, pathEacute, Some 1), (rootGroup, MethodGet, pathEgrave, Some 2)]
   = None"
  using Handle_pathEacute Handle_pathEgrave by simp

lemma pathEacuteX_found:
  "matchAfter noRequestURI (emptyMux False True False)
     [(rootGroup, MethodGet, pathEacuteX, Some 1)] MethodGet pathEacuteX
   = Some (Inr (True, Some 1, []))"
  by code_simp

lemma pathEacuteX_lost:
  "matchAfter noRequestURI (emptyMux False True False)
     [(rootGroup, MethodGet, pathEacuteX, Some 1), (rootGroup, MethodGet, pathEgraveY, Some 2)]
     MethodGet pathEacuteX
   = Some (Inr (False, None, []))"
  by code_simp

lemma pathEgraveX_found:
  "matchAfter noRequestURI (emptyMux False True False)
     [(rootGroup, MethodGet, pathEacuteX, Some 1), (rootGroup, MethodGet, pathEgraveY, Some 2)]
     MethodGet pathEgraveX
   = Some (Inr (True, Some 1, []))"
  by code_simp

text \<open>
  Claim C8 says that prefix splitting keeps every previously inserted subtree reachable.
  \<^verbatim>\<open>splitCommonPrefix\<close> looks for the common prefix with \<^verbatim>\<open>for i = range childNode.path\<close>, which
  steps over the runes of the child's path, not over its bytes, and it takes the prefix
  from the new pattern. With \<^verbatim>\<open>/e'x\<close> registered, the registration of \<^verbatim>\<open>/e`y\<close> splits after
  the two bytes of the letter, which differ in the second: the route \<^verbatim>\<open>/e'x\<close> is not found
  any more, and its handler answers \<^verbatim>\<open>/e`x\<close>, which was never registered. With \<^verbatim>\<open>/e'\<close>
  registered, the registration of \<^verbatim>\<open>/e`\<close> splits at length 0 and calls \<^verbatim>\<open>addPath\<close> with the
  same pattern for ever.
\<close>

theorem split_by_rune_moves_route:
  "matchAfter noRequestURI (emptyMux False True False)
     [(rootGroup, MethodGet, pathEacuteX, Some 1)] MethodGet pathEacuteX
   = Some (Inr (True, Some 1, []))
   \<and> matchAfter noRequestURI (emptyMux False True False)
       [(rootGroup, MethodGet, pathEacuteX, Some 1), (rootGroup, MethodGet, pathEgraveY, Some 2)]
       MethodGet pathEacuteX
     = Some (Inr (False, None, []))
   \<and> matchAfter noRequestURI (emptyMux False True False)
       [(rootGroup, MethodGet, pathEacuteX, Some 1), (rootGroup, MethodGet, pathEgraveY, Some 2)]
       MethodGet pathEgraveX
     = Some (Inr (True, Some 1, []))
   \<and> HandleAll noRequestURI (emptyMux False True False)
       [(rootGroup, MethodGet, pathEacute, Some 1), (rootGroup, MethodGet, pathEgrave, Some 2)]
     = None"
  by (rule conjI [OF pathEacuteX_found
             conjI [OF pathEacuteX_lost conjI [OF pathEgraveX_found HandleAll_pathEgrave]]])

end
